theory Spec2Isabelle
  imports Main "HOL-Library.Sublist" "HOL-Library.Product_Lexorder" "HOL-Library.Multiset"
begin

section \<open>Python strings\<close>

text \<open>
  A Python \<^verbatim>\<open>str\<close> is a sequence of Unicode code points and \<^verbatim>\<open>len\<close> counts code
  points, so a string is a list of code points here. \<open>ascii\<close> reads an ASCII literal.
\<close>

type_synonym ustr = "nat list"

definition ascii :: "string \<Rightarrow> ustr" where
  "ascii s = map of_char s"

text \<open>\<^verbatim>\<open>str.isspace\<close> on one code point: the characters \<^verbatim>\<open>strip()\<close> removes.\<close>

definition isspace :: "nat \<Rightarrow> bool" where
  "isspace c = (c \<in> {9, 10, 11, 12, 13, 28, 29, 30, 31, 32, 133, 160, 5760,
     8192, 8193, 8194, 8195, 8196, 8197, 8198, 8199, 8200, 8201, 8202,
     8232, 8233, 8239, 8287, 12288})"

text \<open>The line boundaries of \<^verbatim>\<open>str.splitlines\<close>.\<close>

definition is_linebreak :: "nat \<Rightarrow> bool" where
  "is_linebreak c = (c \<in> {10, 11, 12, 13, 28, 29, 30, 133, 8232, 8233})"

definition strip_chars :: "('a \<Rightarrow> bool) \<Rightarrow> 'a list \<Rightarrow> 'a list" where
  "strip_chars P s = rev (dropWhile P (rev (dropWhile P s)))"

definition rstrip :: "ustr \<Rightarrow> ustr" where
  "rstrip s = rev (dropWhile isspace (rev s))"

definition strip :: "ustr \<Rightarrow> ustr" where
  "strip s = strip_chars isspace s"

text \<open>\<^verbatim>\<open>s.replace(old, new)\<close> for one-character \<open>old\<close> and \<open>new\<close>.\<close>

definition replace_char :: "nat \<Rightarrow> nat \<Rightarrow> ustr \<Rightarrow> ustr" where
  "replace_char old new s = map (\<lambda>c. if c = old then new else c) s"

text \<open>\<^verbatim>\<open>s.split(sep)\<close> for a one-character separator: always at least one piece.\<close>

fun split_on :: "'a \<Rightarrow> 'a list \<Rightarrow> 'a list list" where
  "split_on sep [] = [[]]"
| "split_on sep (c # cs) =
     (if c = sep then [] # split_on sep cs
      else (case split_on sep cs of [] \<Rightarrow> [[c]] | p # ps \<Rightarrow> (c # p) # ps))"

text \<open>
  \<^verbatim>\<open>s.splitlines()\<close>: \<^verbatim>\<open>\r\n\<close> is one boundary, and a final boundary opens no
  empty last line.
\<close>

fun splitlines :: "ustr \<Rightarrow> ustr list" where
  "splitlines [] = []"
| "splitlines [c] = (if is_linebreak c then [[]] else [[c]])"
| "splitlines (c # d # cs) =
     (if c = 13 \<and> d = 10 then [] # splitlines cs
      else if is_linebreak c then [] # splitlines (d # cs)
      else (case splitlines (d # cs) of [] \<Rightarrow> [[c]] | l # ls \<Rightarrow> (c # l) # ls))"

text \<open>\<^verbatim>\<open>sep.join(parts)\<close>.\<close>

fun join :: "'a list \<Rightarrow> 'a list list \<Rightarrow> 'a list" where
  "join sep [] = []"
| "join sep [x] = x"
| "join sep (x # y # ys) = x @ sep @ join sep (y # ys)"

text \<open>\<^verbatim>\<open>s.find(sub)\<close>: the index of the first occurrence, or -1.\<close>

fun find_index :: "'a list \<Rightarrow> 'a list \<Rightarrow> nat option" where
  "find_index sub [] = (if sub = [] then Some 0 else None)"
| "find_index sub (c # cs) =
     (if prefix sub (c # cs) then Some 0 else map_option Suc (find_index sub cs))"

definition py_find :: "'a list \<Rightarrow> 'a list \<Rightarrow> int" where
  "py_find s sub = (case find_index sub s of None \<Rightarrow> -1 | Some i \<Rightarrow> int i)"

text \<open>\<^verbatim>\<open>xs[:k]\<close>: a negative \<open>k\<close> counts from the end.\<close>

definition slice_to :: "'a list \<Rightarrow> int \<Rightarrow> 'a list" where
  "slice_to xs k =
     (if k < 0 then take (nat (int (length xs) + k)) xs else take (nat k) xs)"

text \<open>\<^verbatim>\<open>xs[i]\<close> for \<open>i \<ge> 0\<close>, which raises IndexError out of range.\<close>

datatype error = RuntimeError | ValueError | IndexError | FileNotFoundError
  | UnicodeDecodeError | UnicodeEncodeError

definition item :: "'a list \<Rightarrow> nat \<Rightarrow> error + 'a" where
  "item xs i = (if i < length xs then Inr (xs ! i) else Inl IndexError)"

section \<open>Constants\<close>

definition AUTO_START :: ustr where
  "AUTO_START = ascii ''<!-- AUTO-GENERATED START -->''"

definition AUTO_END :: ustr where
  "AUTO_END = ascii ''<!-- AUTO-GENERATED END -->''"

text \<open>The header cells are Chinese; the code points are written out.\<close>

definition HDR_CATEGORY :: ustr where
  "HDR_CATEGORY = [0x7C7B, 0x522B]"

definition HDR_DEVELOPER :: ustr where
  "HDR_DEVELOPER = [0x5F00, 0x53D1, 0x8005]"

definition TABLE_HEADER :: ustr where
  "TABLE_HEADER = ascii ''| '' @ HDR_CATEGORY @ ascii '' | '' @ HDR_DEVELOPER @ ascii '' | ''
     @ [0x9879, 0x76EE, 0x540D, 0x79F0] @ ascii '' | '' @ [0x94FE, 0x63A5] @ ascii '' | ''
     @ [0x7B80, 0x4ECB] @ ascii '' |''"

definition TABLE_DIVIDER :: ustr where
  "TABLE_DIVIDER = ascii ''|---|---|---|---|---|''"

text \<open>The placeholder for a repository without description.\<close>

definition NO_DESCRIPTION :: ustr where
  "NO_DESCRIPTION = [0x6682, 0x65E0, 0x7B80, 0x4ECB]"

section \<open>Cells and rows\<close>

type_synonym row = "ustr list"

text \<open>
  \<^verbatim>\<open>re.search(r"\((https?://[^)]+)\)", cell)\<close>. \<open>match_url\<close> is the match that
  starts at the head of its argument: an opening parenthesis, the scheme, a longest
  non-empty run of characters other than the closing parenthesis, and the closing
  parenthesis. \<open>search_url\<close> returns group 1 of the leftmost match.
\<close>

definition match_url :: "ustr \<Rightarrow> ustr option" where
  "match_url s =
     (case s of [] \<Rightarrow> None
      | c # t \<Rightarrow>
          if c \<noteq> 40 then None
          else let scheme = (if prefix (ascii ''https://'') t then Some (ascii ''https://'')
                             else if prefix (ascii ''http://'') t then Some (ascii ''http://'')
                             else None)
               in (case scheme of None \<Rightarrow> None
                   | Some sch \<Rightarrow>
                       let rest = drop (length sch) t;
                           body = takeWhile (\<lambda>x. x \<noteq> 41) rest;
                           after = dropWhile (\<lambda>x. x \<noteq> 41) rest
                       in if body \<noteq> [] \<and> after \<noteq> [] then Some (sch @ body) else None))"

fun search_url :: "ustr \<Rightarrow> ustr option" where
  "search_url [] = None"
| "search_url (c # cs) =
     (case match_url (c # cs) of Some u \<Rightarrow> Some u | None \<Rightarrow> search_url cs)"

definition extract_url :: "ustr \<Rightarrow> ustr" where
  "extract_url cell =
     (case search_url cell of Some u \<Rightarrow> u
      | None \<Rightarrow>
          if prefix (ascii ''http://'') cell \<or> prefix (ascii ''https://'') cell then cell
          else [])"

definition sanitize_cell :: "ustr \<Rightarrow> ustr" where
  "sanitize_cell text = strip (replace_char 10 32 (replace_char 124 0xFF0F text))"

definition truncate_text :: "ustr \<Rightarrow> int \<Rightarrow> ustr" where
  "truncate_text text max_len =
     (if max_len \<le> 0 then text
      else if int (length text) \<le> max_len then text
      else rstrip (slice_to text (max_len - 3)) @ ascii ''...'')"

fun parse_line :: "ustr \<Rightarrow> row option" where
  "parse_line raw =
     (let line = strip raw in
      if \<not> prefix (ascii ''|'') line then None
      else if prefix (ascii ''|---'') line then None
      else let cols = map strip (split_on 124 (strip_chars (\<lambda>c. c = 124) line)) in
        if length cols < 5 then None
        else if cols ! 0 = HDR_CATEGORY \<and> cols ! 1 = HDR_DEVELOPER then None
        else Some (take 5 cols))"

definition parse_markdown_rows :: "ustr \<Rightarrow> row list" where
  "parse_markdown_rows block = List.map_filter parse_line (splitlines block)"

definition render_row :: "row \<Rightarrow> ustr" where
  "render_row r =
     (let padded = r @ replicate (5 - length r) [] in
      ascii ''| '' @ join (ascii '' | '') (take 5 padded) @ ascii '' |'')"

definition build_table_text :: "row list \<Rightarrow> ustr" where
  "build_table_text rows = join [10] ([TABLE_HEADER, TABLE_DIVIDER] @ map render_row rows)"

section \<open>Keyword matching and classification\<close>

text \<open>
  \<^verbatim>\<open>str.lower\<close> follows the Unicode case tables, which are not part of the
  repository: every function that lowers text takes it as the parameter \<open>lower\<close>.
  \<open>ascii_lower\<close> is what it does on ASCII text. \<^verbatim>\<open>a in b\<close> on strings is
  \<open>sublist a b\<close>.
\<close>

definition ascii_lower :: "ustr \<Rightarrow> ustr" where
  "ascii_lower s = map (\<lambda>c. if 65 \<le> c \<and> c \<le> 90 then c + 32 else c) s"

definition is_excluded_text :: "(ustr \<Rightarrow> ustr) \<Rightarrow> ustr \<Rightarrow> ustr list \<Rightarrow> bool" where
  "is_excluded_text lower text exclude_keywords =
     (let text_lower = lower text in
      list_ex (\<lambda>kw. sublist (lower kw) text_lower) exclude_keywords)"

text \<open>
  A category rule: \<^verbatim>\<open>category.get("name", default)\<close> and
  \<^verbatim>\<open>category.get("keywords", [])\<close>, so the name may be absent.
\<close>

record category =
  cat_name :: "ustr option"
  cat_keywords :: "ustr list"

record repo_owner =
  login :: ustr
  account_type :: ustr

text \<open>
  A repository record as the search returns it. An absent \<open>name\<close> or \<open>html_url\<close> is
  the empty string, absent \<open>topics\<close> the empty list, an absent count 0, an
  absent flag False; \<open>description\<close>, \<open>homepage\<close>, \<open>pushed_at\<close> and \<open>owner\<close> may be null.
\<close>

record repo =
  name :: ustr
  description :: "ustr option"
  topics :: "ustr list"
  fork :: bool
  archived :: bool
  disabled :: bool
  owner :: "repo_owner option"
  stargazers_count :: int
  pushed_at :: "ustr option"
  homepage :: "ustr option"
  html_url :: ustr

definition or_empty :: "ustr option \<Rightarrow> ustr" where
  "or_empty v = (case v of None \<Rightarrow> [] | Some s \<Rightarrow> s)"

definition keyword_hit :: "(ustr \<Rightarrow> ustr) \<Rightarrow> ustr \<Rightarrow> category \<Rightarrow> bool" where
  "keyword_hit lower haystack c = list_ex (\<lambda>kw. sublist (lower kw) haystack) (cat_keywords c)"

fun classify_rules :: "(ustr \<Rightarrow> ustr) \<Rightarrow> ustr \<Rightarrow> category list \<Rightarrow> ustr \<Rightarrow> ustr" where
  "classify_rules lower haystack [] dflt = dflt"
| "classify_rules lower haystack (c # cs) dflt =
     (if keyword_hit lower haystack c
      then (case cat_name c of None \<Rightarrow> dflt | Some n \<Rightarrow> n)
      else classify_rules lower haystack cs dflt)"

definition haystack_of :: "(ustr \<Rightarrow> ustr) \<Rightarrow> repo \<Rightarrow> ustr" where
  "haystack_of lower r =
     lower (join (ascii '' '') [name r, or_empty (description r), join (ascii '' '') (topics r)])"

definition classify_category :: "(ustr \<Rightarrow> ustr) \<Rightarrow> repo \<Rightarrow> category list \<Rightarrow> ustr \<Rightarrow> ustr" where
  "classify_category lower r cats dflt = classify_rules lower (haystack_of lower r) cats dflt"

definition is_excluded_repo :: "(ustr \<Rightarrow> ustr) \<Rightarrow> repo \<Rightarrow> ustr list \<Rightarrow> ustr list \<Rightarrow> bool" where
  "is_excluded_repo lower r exclude_keywords exclude_topics =
     (let text = lower (name r @ ascii '' '' @ or_empty (description r)) in
      if list_ex (\<lambda>kw. sublist (lower kw) text) exclude_keywords then True
      else let tps = map lower (topics r);
               exclude_topics_set = set (map lower exclude_topics)
           in list_ex (\<lambda>topic. topic \<in> exclude_topics_set) tps)"

section \<open>Building the new rows\<close>

text \<open>
  The configuration with its defaults resolved. Times are integers (microseconds);
  \<open>parse_iso_time\<close> (None where \<^verbatim>\<open>fromisoformat\<close> raises ValueError), the clock
  \<open>now\<close> and the HTTP lookup \<open>fetch\<close> of a user's location field are parameters.
\<close>

record config =
  min_stars :: int
  pushed_within_days :: int
  include_owner_location :: bool
  max_description_length :: int
  max_new_per_run :: int
  exclude_keywords :: "ustr list"
  exclude_topics :: "ustr list"
  prefer_homepage :: bool
  require_homepage :: bool
  category_default :: ustr
  categories :: "category list"
  api_base :: ustr

record candidate =
  c_row :: row
  c_has_homepage :: bool
  c_stars :: int
  c_pushed_at :: int

definition fetch_user_location ::
  "(ustr \<Rightarrow> error + ustr option) \<Rightarrow> ustr \<Rightarrow> ustr \<Rightarrow> (ustr \<rightharpoonup> ustr)
     \<Rightarrow> (error + ustr) \<times> (ustr \<rightharpoonup> ustr)" where
  "fetch_user_location fetch lg base cache =
     (case cache lg of Some l \<Rightarrow> (Inr l, cache)
      | None \<Rightarrow>
          (case fetch (base @ ascii ''/users/'' @ lg) of Inl e \<Rightarrow> (Inl e, cache)
           | Inr d \<Rightarrow> let location = strip (or_empty d) in (Inr location, cache(lg \<mapsto> location))))"

definition make_row :: "(ustr \<Rightarrow> ustr) \<Rightarrow> config \<Rightarrow> repo \<Rightarrow> ustr \<Rightarrow> ustr \<Rightarrow> ustr \<Rightarrow> row" where
  "make_row lower cfg r owner_display project_name project_url =
     (let description = (if or_empty (description r) \<noteq> [] then or_empty (description r)
                         else NO_DESCRIPTION);
          description = truncate_text description (max_description_length cfg);
          category = classify_category lower r (categories cfg) (category_default cfg)
      in [sanitize_cell category, sanitize_cell owner_display, sanitize_cell project_name,
          sanitize_cell (ascii ''['' @ project_name @ ascii ''](''  @ project_url @ ascii '')''),
          sanitize_cell description])"

text \<open>One pass of the loop over \<open>repos\<close>: the candidate, if the repository is kept, and the cache.\<close>

definition build_candidate ::
  "(ustr \<Rightarrow> ustr) \<Rightarrow> (ustr \<Rightarrow> int option) \<Rightarrow> (ustr \<Rightarrow> error + ustr option) \<Rightarrow> config \<Rightarrow> int
     \<Rightarrow> repo \<Rightarrow> (ustr \<rightharpoonup> ustr) \<Rightarrow> error + (candidate option \<times> (ustr \<rightharpoonup> ustr))" where
  "build_candidate lower parse_iso_time fetch cfg cutoff r cache =
     (if fork r \<or> archived r \<or> disabled r then Inr (None, cache)
      else if is_excluded_repo lower r (exclude_keywords cfg) (exclude_topics cfg)
        then Inr (None, cache)
      else case owner r of None \<Rightarrow> Inr (None, cache)
      | Some ow \<Rightarrow>
        if account_type ow \<noteq> ascii ''User'' then Inr (None, cache)
        else if stargazers_count r < min_stars cfg then Inr (None, cache)
        else if or_empty (pushed_at r) = [] then Inr (None, cache)
        else case parse_iso_time (or_empty (pushed_at r)) of None \<Rightarrow> Inl ValueError
        | Some pushed_time \<Rightarrow>
          if pushed_time < cutoff then Inr (None, cache)
          else
            let owner_login = strip (login ow);
                looked = (if include_owner_location cfg \<and> owner_login \<noteq> []
                   then (case fetch_user_location fetch owner_login
                                 (rev (dropWhile (\<lambda>c. c = 47) (rev (api_base cfg)))) cache of
                           (Inl e, cache') \<Rightarrow> Inl e
                         | (Inr location, cache') \<Rightarrow>
                             Inr (if location \<noteq> []
                                  then owner_login @ ascii ''('' @ location @ ascii '')''
                                  else owner_login, cache'))
                   else Inr (owner_login, cache))
            in case looked of Inl e \<Rightarrow> Inl e
            | Inr (owner_display, cache') \<Rightarrow>
              let project_name = (if name r \<noteq> [] then name r else owner_login);
                  hp = strip (or_empty (homepage r));
                  project_url = (if prefix (ascii ''http://'') hp \<or> prefix (ascii ''https://'') hp
                                 then hp else html_url r);
                  has_homepage = (hp \<noteq> [])
              in if require_homepage cfg \<and> \<not> has_homepage then Inr (None, cache')
                 else Inr (Some \<lparr>c_row = make_row lower cfg r owner_display project_name project_url,
                                  c_has_homepage = has_homepage,
                                  c_stars = stargazers_count r,
                                  c_pushed_at = pushed_time\<rparr>, cache'))"

fun build_candidates ::
  "(ustr \<Rightarrow> ustr) \<Rightarrow> (ustr \<Rightarrow> int option) \<Rightarrow> (ustr \<Rightarrow> error + ustr option) \<Rightarrow> config \<Rightarrow> int
     \<Rightarrow> repo list \<Rightarrow> (ustr \<rightharpoonup> ustr) \<Rightarrow> error + candidate list" where
  "build_candidates lower parse_iso_time fetch cfg cutoff [] cache = Inr []"
| "build_candidates lower parse_iso_time fetch cfg cutoff (r # rs) cache =
     (case build_candidate lower parse_iso_time fetch cfg cutoff r cache of Inl e \<Rightarrow> Inl e
      | Inr (c, cache') \<Rightarrow>
          (case build_candidates lower parse_iso_time fetch cfg cutoff rs cache' of Inl e \<Rightarrow> Inl e
           | Inr cs \<Rightarrow> Inr ((case c of None \<Rightarrow> [] | Some x \<Rightarrow> [x]) @ cs)))"

text \<open>
  \<^verbatim>\<open>list.sort(key=..., reverse=True)\<close>: the stable sort of the reversed list,
  reversed, so that equal keys keep their order.
\<close>

definition sort_desc :: "('a \<Rightarrow> 'k::linorder) \<Rightarrow> 'a list \<Rightarrow> 'a list" where
  "sort_desc key xs = rev (sort_key key (rev xs))"

definition key_homepage :: "candidate \<Rightarrow> bool \<times> int \<times> int" where
  "key_homepage i = (c_has_homepage i, c_stars i, c_pushed_at i)"

definition key_stars :: "candidate \<Rightarrow> int \<times> int" where
  "key_stars i = (c_stars i, c_pushed_at i)"

definition sort_candidates :: "bool \<Rightarrow> candidate list \<Rightarrow> candidate list" where
  "sort_candidates prefer cands =
     (if prefer then sort_desc key_homepage cands else sort_desc key_stars cands)"

definition microseconds_per_day :: int where
  "microseconds_per_day = 86400000000"

definition build_table_rows ::
  "(ustr \<Rightarrow> ustr) \<Rightarrow> (ustr \<Rightarrow> int option) \<Rightarrow> (ustr \<Rightarrow> error + ustr option) \<Rightarrow> int
     \<Rightarrow> repo list \<Rightarrow> config \<Rightarrow> error + row list" where
  "build_table_rows lower parse_iso_time fetch now repos cfg =
     (let cutoff = now - pushed_within_days cfg * microseconds_per_day in
      case build_candidates lower parse_iso_time fetch cfg cutoff repos Map.empty of
        Inl e \<Rightarrow> Inl e
      | Inr cands \<Rightarrow>
          Inr (map c_row (slice_to (sort_candidates (prefer_homepage cfg) cands)
                                   (max_new_per_run cfg))))"

section \<open>Merging into the document\<close>

definition existing_rows :: "(ustr \<Rightarrow> ustr) \<Rightarrow> ustr \<Rightarrow> ustr list \<Rightarrow> bool \<Rightarrow> row list" where
  "existing_rows lower block excl prune_existing =
     (let rows = parse_markdown_rows block in
      if prune_existing \<and> excl \<noteq> [] then
        filter (\<lambda>r. let project = (if length r > 2 then r ! 2 else []);
                        desc = (if length r > 4 then r ! 4 else [])
                    in \<not> is_excluded_text lower (project @ ascii '' '' @ desc) excl) rows
      else rows)"

text \<open>\<^verbatim>\<open>r[3]\<close> raises IndexError on a row of fewer than four cells.\<close>

definition existing_urls :: "row list \<Rightarrow> error + ustr set" where
  "existing_urls rows =
     (if \<forall>r \<in> set rows. 3 < length r
      then Inr (set (filter (\<lambda>u. u \<noteq> []) (map (\<lambda>r. extract_url (r ! 3)) rows)))
      else Inl IndexError)"

fun filtered_new :: "ustr set \<Rightarrow> row list \<Rightarrow> error + row list" where
  "filtered_new urls [] = Inr []"
| "filtered_new urls (r # rest) =
     (case item r 3 of Inl e \<Rightarrow> Inl e
      | Inr cell \<Rightarrow>
          (case filtered_new urls rest of Inl e \<Rightarrow> Inl e
           | Inr kept \<Rightarrow>
               let url = extract_url cell in
               if url \<noteq> [] \<and> url \<in> urls then Inr kept else Inr (r # kept)))"

definition normalize_row :: "int \<Rightarrow> row \<Rightarrow> row" where
  "normalize_row max_desc_len r =
     (let cells = take 5 (r @ replicate 5 []);
          desc = truncate_text (cells ! 4) max_desc_len
      in [sanitize_cell (cells ! 0), sanitize_cell (cells ! 1), sanitize_cell (cells ! 2),
          sanitize_cell (cells ! 3), sanitize_cell desc])"

definition merged_rows :: "row list \<Rightarrow> row list \<Rightarrow> int \<Rightarrow> int \<Rightarrow> row list" where
  "merged_rows fnew ex max_total max_desc_len =
     (let merged = map (normalize_row max_desc_len) (fnew @ ex) in
      if max_total \<noteq> 0 \<and> int (length merged) > max_total then slice_to merged max_total
      else merged)"

text \<open>
  The table part of \<open>update_readme\<close>, from the text between the markers to
  \<open>merged_rows\<close> and the count \<open>len(filtered_new)\<close>.
\<close>

definition merge_table ::
  "(ustr \<Rightarrow> ustr) \<Rightarrow> ustr \<Rightarrow> row list \<Rightarrow> int \<Rightarrow> int \<Rightarrow> ustr list \<Rightarrow> bool
     \<Rightarrow> error + (row list \<times> nat)" where
  "merge_table lower block new_rows max_total max_desc_len excl prune_existing =
     (let ex = existing_rows lower block excl prune_existing in
      case existing_urls ex of Inl e \<Rightarrow> Inl e
      | Inr urls \<Rightarrow>
          (case filtered_new urls new_rows of Inl e \<Rightarrow> Inl e
           | Inr fnew \<Rightarrow> Inr (merged_rows fnew ex max_total max_desc_len, length fnew)))"

definition block_of :: "ustr \<Rightarrow> int \<Rightarrow> int \<Rightarrow> ustr" where
  "block_of content start_pos end_pos =
     take (nat end_pos - (nat start_pos + length AUTO_START))
          (drop (nat start_pos + length AUTO_START) content)"

definition splice :: "ustr \<Rightarrow> int \<Rightarrow> int \<Rightarrow> row list \<Rightarrow> ustr" where
  "splice content start_pos end_pos rows =
     take (nat start_pos) content
       @ (AUTO_START @ [10] @ build_table_text rows @ [10] @ AUTO_END)
       @ drop (nat end_pos + length AUTO_END) content"

text \<open>
  The files are a map from paths to texts. UTF-8 encodes no lone surrogate: a stored text
  that holds one stands for bytes that are not UTF-8, and \<open>read_text\<close> raises
  UnicodeDecodeError on it. Reading in text mode turns \<^verbatim>\<open>\r\n\<close> and \<^verbatim>\<open>\r\<close> into
  \<^verbatim>\<open>\n\<close>. \<open>write_text\<close> opens the file with mode \<^verbatim>\<open>w\<close>, which empties it, and
  then encodes the text: on a lone surrogate it raises UnicodeEncodeError and the file
  stays empty. The text is stored as it is written (the line separator of the system is
  \<^verbatim>\<open>\n\<close>).
\<close>

definition is_surrogate :: "nat \<Rightarrow> bool" where
  "is_surrogate c = (0xD800 \<le> c \<and> c \<le> 0xDFFF)"

fun universal_newlines :: "ustr \<Rightarrow> ustr" where
  "universal_newlines [] = []"
| "universal_newlines [c] = [if c = 13 then 10 else c]"
| "universal_newlines (c # d # cs) =
     (if c = 13 \<and> d = 10 then 10 # universal_newlines cs
      else if c = 13 then 10 # universal_newlines (d # cs)
      else c # universal_newlines (d # cs))"

definition read_text :: "('p \<rightharpoonup> ustr) \<Rightarrow> 'p \<Rightarrow> error + ustr" where
  "read_text fs path =
     (case fs path of None \<Rightarrow> Inl FileNotFoundError
      | Some stored \<Rightarrow>
          if list_ex is_surrogate stored then Inl UnicodeDecodeError
          else Inr (universal_newlines stored))"

definition write_text :: "('p \<rightharpoonup> ustr) \<Rightarrow> 'p \<Rightarrow> ustr \<Rightarrow> (error + unit) \<times> ('p \<rightharpoonup> ustr)" where
  "write_text fs path content =
     (if list_ex is_surrogate content then (Inl UnicodeEncodeError, fs(path \<mapsto> []))
      else (Inr (), fs(path \<mapsto> content)))"

text \<open>
  The result of \<open>update_readme\<close> is the value returned or the exception raised, and the
  files afterwards.
\<close>

definition update_readme ::
  "(ustr \<Rightarrow> ustr) \<Rightarrow> ('p \<rightharpoonup> ustr) \<Rightarrow> 'p \<Rightarrow> row list \<Rightarrow> int \<Rightarrow> int \<Rightarrow> ustr list \<Rightarrow> bool
     \<Rightarrow> (error + int) \<times> ('p \<rightharpoonup> ustr)" where
  "update_readme lower fs readme_path new_rows max_total max_desc_len excl prune_existing =
     (case read_text fs readme_path of Inl e \<Rightarrow> (Inl e, fs)
      | Inr content \<Rightarrow>
          let start_pos = py_find content AUTO_START;
              end_pos = py_find content AUTO_END
          in if start_pos = -1 \<or> end_pos = -1 \<or> end_pos < start_pos then (Inl RuntimeError, fs)
             else (case merge_table lower (block_of content start_pos end_pos) new_rows
                          max_total max_desc_len excl prune_existing of
                     Inl e \<Rightarrow> (Inl e, fs)
                   | Inr (rows, added) \<Rightarrow>
                       (case write_text fs readme_path
                               (splice content start_pos end_pos rows) of
                          (Inl e, fs') \<Rightarrow> (Inl e, fs')
                        | (Inr u, fs') \<Rightarrow> (Inr (int added), fs'))))"

section \<open>Predicates of the specification\<close>

text \<open>A cell without pipe and without newline.\<close>

definition clean_cell :: "ustr \<Rightarrow> bool" where
  "clean_cell c = (124 \<notin> set c \<and> 10 \<notin> set c)"

text \<open>A string that begins and ends with no character of \<open>P\<close>.\<close>

definition stripped :: "('a \<Rightarrow> bool) \<Rightarrow> 'a list \<Rightarrow> bool" where
  "stripped P s = (s = [] \<or> (\<not> P (hd s) \<and> \<not> P (last s)))"

definition good_row :: "row \<Rightarrow> bool" where
  "good_row r = (length r = 5 \<and> (\<forall>c \<in> set r. clean_cell c \<and> stripped isspace c))"

text \<open>
  A rule matches a record when one of its keywords, lowered, is a substring of the
  lowered search text: name, description and the space-joined topics, joined by spaces.
\<close>

definition rule_matches :: "(ustr \<Rightarrow> ustr) \<Rightarrow> repo \<Rightarrow> category \<Rightarrow> bool" where
  "rule_matches lower r c =
     (\<exists>kw \<in> set (cat_keywords c).
        sublist (lower kw)
          (lower (name r @ ascii '' '' @ or_empty (description r) @ ascii '' ''
                    @ join (ascii '' '') (topics r))))"

text \<open>
  A row that \<open>build_table_text\<close> prints as one table line which
  \<open>parse_markdown_rows\<close> reads back: five clean, stripped cells without line boundary,
  not the header cells.
\<close>

definition printable_row :: "row \<Rightarrow> bool" where
  "printable_row r = (good_row r \<and> (\<forall>c \<in> set r. \<forall>x \<in> set c. \<not> is_linebreak x)
     \<and> \<not> (r ! 0 = HDR_CATEGORY \<and> r ! 1 = HDR_DEVELOPER))"

text \<open>The URL that \<open>extract_url\<close> reads from the link cell of a row.\<close>

definition link_url :: "row \<Rightarrow> ustr" where
  "link_url r = extract_url (r ! 3)"

text \<open>
  A new row whose merged form is written, read back from the table and found again by its
  URL: a non-empty URL in a link cell that sanitization leaves unchanged, no lone
  surrogate, no line boundary other than the newline that sanitization replaces, and not
  the header cells.
\<close>

definition printable_new_row :: "row \<Rightarrow> bool" where
  "printable_new_row r = (link_url r \<noteq> [] \<and> sanitize_cell (r ! 3) = r ! 3
     \<and> (\<forall>c \<in> set r. \<forall>x \<in> set c. (is_linebreak x \<longrightarrow> x = 10) \<and> \<not> is_surrogate x)
     \<and> \<not> (sanitize_cell (r ! 0) = HDR_CATEGORY \<and> sanitize_cell (r ! 1) = HDR_DEVELOPER))"

text \<open>The characters of the markers, of the table header and divider, and of the row frame.\<close>

definition fixed_chars :: "nat set" where
  "fixed_chars = set AUTO_START \<union> set AUTO_END \<union> set TABLE_HEADER \<union> set TABLE_DIVIDER
     \<union> {10, 124, 32}"

section \<open>Example data\<close>

definition ex_config :: config where
  "ex_config = \<lparr>min_stars = 10, pushed_within_days = 365, include_owner_location = True,
     max_description_length = 12, max_new_per_run = 50, exclude_keywords = [ascii ''spam''],
     exclude_topics = [], prefer_homepage = True, require_homepage = False,
     category_default = ascii ''misc'',
     categories = [\<lparr>cat_name = Some (ascii ''db''), cat_keywords = [ascii ''sql'']\<rparr>,
                   \<lparr>cat_name = Some (ascii ''ai''), cat_keywords = [ascii ''GPT'']\<rparr>,
                   \<lparr>cat_name = Some (ascii ''tools''), cat_keywords = [ascii ''tool'']\<rparr>],
     api_base = ascii ''https://api/''\<rparr>"

definition ex_repo :: repo where
  "ex_repo = \<lparr>name = ascii ''foo'', description = Some (ascii ''Tool | GPT helper''),
     topics = [ascii ''cli''], fork = False, archived = False, disabled = False,
     owner = Some \<lparr>login = ascii ''bob'', account_type = ascii ''User''\<rparr>,
     stargazers_count = 100, pushed_at = Some (ascii ''2026-01-01T00:00:00Z''),
     homepage = None, html_url = ascii ''https://x.com/a/foo''\<rparr>"

definition ex_repo2 :: repo where
  "ex_repo2 = \<lparr>name = ascii ''bar'', description = Some (ascii ''second''),
     topics = [ascii ''gpt''], fork = False, archived = False, disabled = False,
     owner = Some \<lparr>login = ascii ''amy'', account_type = ascii ''User''\<rparr>,
     stargazers_count = 50, pushed_at = Some (ascii ''2026-02-01T00:00:00Z''),
     homepage = Some (ascii ''https://x.com/a/bar''), html_url = ascii ''https://x.com/a/bar-repo''\<rparr>"

definition ex_fetch :: "ustr \<Rightarrow> error + ustr option" where
  "ex_fetch url = Inr (if url = ascii ''https://api/users/bob'' then Some (ascii '' Oslo '') else None)"

definition ex_parse_time :: "ustr \<Rightarrow> int option" where
  "ex_parse_time s = (if s = ascii ''2026-01-01T00:00:00Z'' then Some 5
                      else if s = ascii ''2026-02-01T00:00:00Z'' then Some 6 else None)"

definition ex_row_foo :: row where
  "ex_row_foo = [ascii ''ai'', ascii ''bob(Oslo)'', ascii ''foo'',
     ascii ''[foo](https://x.com/a/foo)'', ascii ''Tool '' @ [0xFF0F] @ ascii '' GP...'']"

definition ex_row_bar :: row where
  "ex_row_bar = [ascii ''ai'', ascii ''amy'', ascii ''bar'',
     ascii ''[bar](https://x.com/a/bar)'', ascii ''second'']"

definition ex_row_bar2 :: row where
  "ex_row_bar2 = [ascii ''ai'', ascii ''joe'', ascii ''bar2'',
     ascii ''[bar2](https://x.com/a/bar)'', ascii ''mirror'']"

definition ex_row_qux :: row where
  "ex_row_qux = [ascii ''db'', ascii ''kim'', ascii ''qux'',
     ascii ''[qux](https://x.com/a/qux)'', ascii ''third'']"

definition ex_cand_foo :: candidate where
  "ex_cand_foo = \<lparr>c_row = ex_row_foo, c_has_homepage = False, c_stars = 100, c_pushed_at = 5\<rparr>"

definition ex_cand_bar :: candidate where
  "ex_cand_bar = \<lparr>c_row = ex_row_bar, c_has_homepage = True, c_stars = 50, c_pushed_at = 6\<rparr>"

definition ex_row_nourl :: row where
  "ex_row_nourl = [ascii ''ai'', ascii ''joe'', ascii ''baz'', ascii ''baz'', ascii ''no link'']"

definition ex_block_of :: "row list \<Rightarrow> ustr" where
  "ex_block_of rows = [10] @ build_table_text rows @ [10]"

definition ex_block :: ustr where
  "ex_block = ex_block_of [ex_row_foo]"

definition ex_doc_of :: "row list \<Rightarrow> ustr" where
  "ex_doc_of rows = ascii ''# T'' @ [10] @ AUTO_START @ [10] @ build_table_text rows @ [10]
     @ AUTO_END @ [10]"

definition ex_doc :: ustr where
  "ex_doc = ex_doc_of [ex_row_foo]"

section \<open>Auxiliary lemmas\<close>

text \<open>The equations that evaluate the string functions on literals.\<close>

lemmas str_ev = ascii_def strip_def strip_chars_def rstrip_def isspace_def is_linebreak_def
  replace_char_def slice_to_def sublist_code

lemmas table_ev = parse_markdown_rows_def build_table_text_def render_row_def
  TABLE_HEADER_def TABLE_DIVIDER_def HDR_CATEGORY_def HDR_DEVELOPER_def List.map_filter_def

lemmas merge_ev = merge_table_def existing_rows_def existing_urls_def merged_rows_def
  normalize_row_def item_def extract_url_def match_url_def truncate_text_def sanitize_cell_def
  is_excluded_text_def ascii_lower_def

lemma set_strip_chars: "set (strip_chars P s) \<subseteq> set s"
  unfolding strip_chars_def
  by (metis set_rev set_dropWhileD subsetI)

lemma dropWhile_stripped_hd: "dropWhile P s \<noteq> [] \<Longrightarrow> \<not> P (hd (dropWhile P s))"
  by (rule hd_dropWhile)

lemma stripped_strip_chars: "stripped P (strip_chars P s)"
proof (cases "dropWhile P s = []")
  case True
  have "strip_chars P s = []" unfolding strip_chars_def True by simp
  then show ?thesis by (simp add: stripped_def)
next
  case False
  define t where "t = dropWhile P s"
  have t: "t \<noteq> []" "\<not> P (hd t)" using False hd_dropWhile[of P s] by (auto simp: t_def)
  define u where "u = dropWhile P (rev t)"
  have "\<not> P (last (rev t))" using t by (simp add: last_rev)
  then have "\<exists>x \<in> set (rev t). \<not> P x" using t by (metis last_in_set rev_is_Nil_conv)
  then have u: "u \<noteq> []" by (auto simp: u_def dropWhile_eq_Nil_conv)
  then have hu: "\<not> P (hd u)" unfolding u_def by (rule hd_dropWhile)
  have "rev t = takeWhile P (rev t) @ u" by (simp add: u_def)
  then have "last u = last (rev t)" using u by (metis last_appendR)
  then have lu: "\<not> P (last u)" using t by (simp add: last_rev)
  have "strip_chars P s = rev u" by (simp add: strip_chars_def u_def t_def)
  then show ?thesis using u hu lu by (simp add: stripped_def hd_rev last_rev)
qed

lemma strip_chars_id: "stripped P s \<Longrightarrow> strip_chars P s = s"
proof (cases s)
  case Nil
  then show ?thesis by (simp add: strip_chars_def)
next
  case (Cons a l)
  assume "stripped P s"
  then have h: "\<not> P (hd s)" "\<not> P (last s)" using Cons by (auto simp: stripped_def)
  then have 1: "dropWhile P s = s" using Cons by simp
  obtain ys x where ys: "s = ys @ [x]"
    using Cons by (metis rev_exhaust list.distinct(1))
  then have "\<not> P x" using h(2) by simp
  then have "dropWhile P (rev s) = rev s" by (simp add: ys)
  then show ?thesis using 1 by (simp add: strip_chars_def)
qed

lemma sanitize_cell_clean: "clean_cell (sanitize_cell s)"
proof -
  have "set (sanitize_cell s) \<subseteq> set (replace_char 10 32 (replace_char 124 0xFF0F s))"
    by (simp add: sanitize_cell_def strip_def set_strip_chars)
  moreover have "124 \<notin> set (replace_char 10 32 (replace_char 124 0xFF0F s))"
    by (auto simp: replace_char_def)
  moreover have "10 \<notin> set (replace_char 10 32 (replace_char 124 0xFF0F s))"
    by (auto simp: replace_char_def)
  ultimately show ?thesis by (auto simp: clean_cell_def)
qed

lemma replace_char_id: "old \<notin> set s \<Longrightarrow> replace_char old new s = s"
  by (induction s) (auto simp: replace_char_def)

lemma sanitize_cell_id: "clean_cell s \<Longrightarrow> stripped isspace s \<Longrightarrow> sanitize_cell s = s"
  by (simp add: sanitize_cell_def clean_cell_def replace_char_id strip_def strip_chars_id)

lemma sanitize_cell_stripped: "stripped isspace (sanitize_cell s)"
  by (simp add: sanitize_cell_def strip_def stripped_strip_chars)

lemma sanitize_cell_idem: "sanitize_cell (sanitize_cell s) = sanitize_cell s"
  by (simp add: sanitize_cell_id sanitize_cell_clean sanitize_cell_stripped)

lemma length_strip_chars: "length (strip_chars P s) \<le> length s"
proof -
  have "length (dropWhile P (rev (dropWhile P s))) \<le> length (rev (dropWhile P s))"
    by (rule length_dropWhile_le)
  also have "\<dots> \<le> length s" by (simp add: length_dropWhile_le)
  finally show ?thesis by (simp add: strip_chars_def)
qed

lemma length_sanitize_cell: "length (sanitize_cell s) \<le> length s"
  using length_strip_chars[of isspace "replace_char 10 32 (replace_char 124 0xFF0F s)"]
  by (simp add: sanitize_cell_def strip_def replace_char_def)

lemma normalize_row_cells:
  "length (normalize_row m r) = 5 \<and> (\<forall>c \<in> set (normalize_row m r). clean_cell c \<and> stripped isspace c)"
  by (simp add: normalize_row_def Let_def sanitize_cell_clean sanitize_cell_stripped)

lemma set_slice_to: "set (slice_to xs k) \<subseteq> set xs"
  by (auto simp: slice_to_def dest: in_set_takeD)

lemma merged_rows_cells:
  "r \<in> set (merged_rows fnew ex mt ml) \<Longrightarrow> length r = 5 \<and> (\<forall>c \<in> set r. clean_cell c \<and> stripped isspace c)"
proof -
  assume "r \<in> set (merged_rows fnew ex mt ml)"
  then have "r \<in> set (map (normalize_row ml) (fnew @ ex))"
    using set_slice_to[of "map (normalize_row ml) (fnew @ ex)" mt]
    by (auto simp: merged_rows_def Let_def split: if_splits)
  then obtain r0 where "r = normalize_row ml r0" by auto
  then show ?thesis using normalize_row_cells by blast
qed

lemma make_row_cells:
  "length (make_row lower cfg r od pn pu) = 5 \<and> (\<forall>c \<in> set (make_row lower cfg r od pn pu). clean_cell c \<and> stripped isspace c)"
  by (simp add: make_row_def Let_def sanitize_cell_clean sanitize_cell_stripped)

lemma good_make_row: "good_row (make_row lower cfg r od pn pu)"
  using make_row_cells by (simp add: good_row_def)

lemma build_candidate_row:
  assumes "build_candidate lower parse fetch cfg cutoff r cache = Inr (Some c, cache')"
  shows "good_row (c_row c)"
  using assms unfolding build_candidate_def Let_def
  by (auto simp: good_make_row split: if_splits option.splits sum.splits prod.splits)

lemma build_candidates_rows:
  "build_candidates lower parse fetch cfg cutoff rs cache = Inr cands \<Longrightarrow> c \<in> set cands
     \<Longrightarrow> good_row (c_row c)"
proof (induction rs arbitrary: cache cands)
  case Nil
  then show ?case by simp
next
  case (Cons r rs)
  from Cons.prems(1) obtain x cache' cs where
    1: "build_candidate lower parse fetch cfg cutoff r cache = Inr (x, cache')" and
    2: "build_candidates lower parse fetch cfg cutoff rs cache' = Inr cs" and
    3: "cands = (case x of None \<Rightarrow> [] | Some y \<Rightarrow> [y]) @ cs"
    by (auto split: sum.splits prod.splits)
  show ?case
  proof (cases "c \<in> set cs")
    case True
    then show ?thesis using Cons.IH[OF 2] by blast
  next
    case False
    then have "x = Some c" using 3 Cons.prems(2) by (auto split: option.splits)
    then show ?thesis using 1 build_candidate_row by blast
  qed
qed

lemma set_sort_desc: "set (sort_desc k xs) = set xs"
  by (simp add: sort_desc_def)

lemma set_sort_candidates: "set (sort_candidates p xs) = set xs"
  by (simp add: sort_candidates_def set_sort_desc)

lemma build_table_rows_cells:
  assumes "build_table_rows lower parse fetch now repos cfg = Inr rows" and "r \<in> set rows"
  shows "length r = 5 \<and> (\<forall>c \<in> set r. clean_cell c \<and> stripped isspace c)"
proof -
  from assms(1) obtain cands where
    1: "build_candidates lower parse fetch cfg (now - pushed_within_days cfg * microseconds_per_day) repos Map.empty = Inr cands"
    and 2: "rows = map c_row (slice_to (sort_candidates (prefer_homepage cfg) cands) (max_new_per_run cfg))"
    by (auto simp: build_table_rows_def Let_def split: sum.splits)
  from 2 assms(2) obtain c where "c \<in> set cands" "r = c_row c"
    using set_slice_to[of "sort_candidates (prefer_homepage cfg) cands" "max_new_per_run cfg"]
    by (auto simp: set_sort_candidates)
  then show ?thesis using build_candidates_rows[OF 1] by (simp add: good_row_def)
qed

lemma keyword_hit_rule_matches:
  "keyword_hit lower (haystack_of lower r) c = rule_matches lower r c"
  by (simp add: keyword_hit_def haystack_of_def rule_matches_def list_ex_iff)

lemma classify_rules_none:
  "\<forall>c \<in> set cats. \<not> keyword_hit lower h c \<Longrightarrow> classify_rules lower h cats d = d"
  by (induction cats) auto

lemma classify_rules_first:
  "\<forall>c' \<in> set pre. \<not> keyword_hit lower h c' \<Longrightarrow> keyword_hit lower h c
     \<Longrightarrow> classify_rules lower h (pre @ c # post) d = (case cat_name c of None \<Rightarrow> d | Some n \<Rightarrow> n)"
  by (induction pre) auto

lemma find_index_None: "find_index sub s = None \<longleftrightarrow> \<not> sublist sub s"
  by (induction s) (auto simp: sublist_Cons_right)

lemma py_find_minus_one: "py_find s sub = -1 \<longleftrightarrow> \<not> sublist sub s"
  using find_index_None[of sub s] by (auto simp: py_find_def split: option.splits)

lemma universal_newlines_id: "13 \<notin> set s \<Longrightarrow> universal_newlines s = s"
  by (induction s rule: universal_newlines.induct) auto

lemma universal_newlines_set: "set (universal_newlines s) \<subseteq> insert 10 (set s)"
  by (induction s rule: universal_newlines.induct) auto

lemma universal_newlines_no_cr: "13 \<notin> set (universal_newlines s)"
  by (induction s rule: universal_newlines.induct) auto

lemma not_surrogate_10: "\<not> is_surrogate 10"
  by (simp add: is_surrogate_def)

lemma read_text_plain:
  "fs p = Some c \<Longrightarrow> \<not> list_ex is_surrogate c \<Longrightarrow> 13 \<notin> set c \<Longrightarrow> read_text fs p = Inr c"
  by (simp add: read_text_def universal_newlines_id)

lemma read_text_Inr:
  assumes "read_text fs p = Inr content"
  shows "\<not> list_ex is_surrogate content" and "13 \<notin> set content"
proof -
  from assms obtain stored where st: "fs p = Some stored" "\<not> list_ex is_surrogate stored"
    and c: "content = universal_newlines stored"
    by (auto simp: read_text_def split: option.splits if_splits)
  show "13 \<notin> set content" by (simp add: c universal_newlines_no_cr)
  show "\<not> list_ex is_surrogate content"
    using st(2) universal_newlines_set[of stored] not_surrogate_10
    by (auto simp: c list_ex_iff)
qed

lemma update_readme_error_before_write:
  "fst (update_readme lower fs p new mt ml ek pe) = Inl e \<Longrightarrow> e \<noteq> UnicodeEncodeError
     \<Longrightarrow> snd (update_readme lower fs p new mt ml ek pe) = fs"
  by (auto simp: update_readme_def write_text_def Let_def
      split: sum.splits prod.splits if_splits)

lemma update_readme_written:
  assumes "update_readme lower fs p new mt ml ek pe = (Inr n, fs')"
  shows "\<exists>content rows added. read_text fs p = Inr content \<and> n = int added
     \<and> merge_table lower (block_of content (py_find content AUTO_START) (py_find content AUTO_END))
          new mt ml ek pe = Inr (rows, added)
     \<and> fs' = fs(p \<mapsto> splice content (py_find content AUTO_START) (py_find content AUTO_END) rows)"
  using assms
  by (auto simp: update_readme_def write_text_def Let_def
      split: sum.splits prod.splits if_splits)

lemma update_readme_run:
  assumes "read_text fs p = Inr content"
    and "sublist AUTO_START content" and "sublist AUTO_END content"
    and "py_find content AUTO_START \<le> py_find content AUTO_END"
    and "merge_table lower (block_of content (py_find content AUTO_START) (py_find content AUTO_END))
          new mt ml ek pe = Inr (rows, added)"
  shows "update_readme lower fs p new mt ml ek pe =
     (if list_ex is_surrogate
           (splice content (py_find content AUTO_START) (py_find content AUTO_END) rows)
      then (Inl UnicodeEncodeError, fs(p \<mapsto> []))
      else (Inr (int added),
            fs(p \<mapsto> splice content (py_find content AUTO_START) (py_find content AUTO_END) rows)))"
proof -
  have m: "\<not> (py_find content AUTO_START = -1 \<or> py_find content AUTO_END = -1
        \<or> py_find content AUTO_END < py_find content AUTO_START)"
    using assms(2,3,4) by (simp add: py_find_minus_one)
  show ?thesis
    unfolding update_readme_def assms(1) Let_def using m assms(5)
    by (simp add: write_text_def)
qed

lemma parse_line_length: "parse_line l = Some r \<Longrightarrow> length r = 5"
  by (auto simp: Let_def split: if_splits)

lemma parse_markdown_rows_length: "r \<in> set (parse_markdown_rows b) \<Longrightarrow> length r = 5"
  by (auto simp: parse_markdown_rows_def List.map_filter_def parse_line_length simp del: parse_line.simps)

lemma existing_rows_subset: "set (existing_rows lower b ek pe) \<subseteq> set (parse_markdown_rows b)"
  by (auto simp: existing_rows_def Let_def)

lemma existing_rows_length: "r \<in> set (existing_rows lower b ek pe) \<Longrightarrow> length r = 5"
  using existing_rows_subset parse_markdown_rows_length by blast

lemma existing_urls_ok:
  "existing_urls (existing_rows lower b ek pe)
     = Inr (set (filter (\<lambda>u. u \<noteq> []) (map (\<lambda>r. extract_url (r ! 3)) (existing_rows lower b ek pe))))"
  using existing_rows_length[of _ lower b ek pe] by (auto simp: existing_urls_def)

lemma merge_table_Inr:
  assumes "merge_table lower b new mt ml ek pe = Inr (rows, n)"
  shows "\<exists>fnew. filtered_new (set (filter (\<lambda>u. u \<noteq> []) (map (\<lambda>r. extract_url (r ! 3)) (existing_rows lower b ek pe)))) new = Inr fnew
       \<and> rows = merged_rows fnew (existing_rows lower b ek pe) mt ml \<and> n = length fnew"
  using assms by (auto simp: merge_table_def Let_def existing_urls_ok split: sum.splits)

lemma truncate_text_unlimited: "max_len \<le> 0 \<Longrightarrow> truncate_text s max_len = s"
  by (simp add: truncate_text_def)

lemma truncate_text_hello_world: "truncate_text (ascii ''hello world'') 8 = ascii ''hello...''"
  by (simp add: truncate_text_def ascii_def slice_to_def rstrip_def isspace_def)

lemma truncate_text_bound:
  assumes "3 \<le> max_len" and "int (length s) > max_len"
  shows "truncate_text s max_len = rstrip (take (nat (max_len - 3)) s) @ ascii ''...''
     \<and> int (length (truncate_text s max_len)) \<le> max_len"
proof -
  have 1: "truncate_text s max_len = rstrip (take (nat (max_len - 3)) s) @ ascii ''...''"
    using assms by (simp add: truncate_text_def slice_to_def)
  have "length (rstrip (take (nat (max_len - 3)) s)) \<le> length (take (nat (max_len - 3)) s)"
    using length_dropWhile_le[of isspace "rev (take (nat (max_len - 3)) s)"] by (simp add: rstrip_def)
  then have "int (length (rstrip (take (nat (max_len - 3)) s))) \<le> max_len - 3"
    using assms by simp
  then show ?thesis using 1 by (simp add: ascii_def)
qed

subsection \<open>Parsed rows\<close>

lemma splitlines_no_linebreak_all:
  "\<forall>l \<in> set (splitlines s). \<forall>x \<in> set l. \<not> is_linebreak x"
proof (induction s rule: splitlines.induct)
  case 1
  then show ?case by simp
next
  case (2 c)
  then show ?case by simp
next
  case (3 c d cs)
  show ?case
  proof (cases "c = 13 \<and> d = 10")
    case True
    have "splitlines (c # d # cs) = [] # splitlines cs"
      using True by simp
    then show ?thesis using 3(1)[OF True] by simp
  next
    case nrn: False
    show ?thesis
    proof (cases "is_linebreak c")
      case True
      have "\<forall>l \<in> set (splitlines (d # cs)). \<forall>x \<in> set l. \<not> is_linebreak x"
        using 3(2)[OF nrn True] .
      moreover have "splitlines (c # d # cs) = [] # splitlines (d # cs)"
        by (subst splitlines.simps) (simp only: nrn True if_False if_True)
      ultimately show ?thesis by simp
    next
      case False
      have ih: "\<forall>l \<in> set (splitlines (d # cs)). \<forall>x \<in> set l. \<not> is_linebreak x"
        using 3(3)[OF nrn False] .
      show ?thesis
      proof (cases "splitlines (d # cs)")
        case Nil
        then have "splitlines (c # d # cs) = [[c]]"
          by (subst splitlines.simps) (simp only: nrn False if_False list.case)
        then show ?thesis using False by simp
      next
        case (Cons l ls)
        then have "splitlines (c # d # cs) = (c # l) # ls"
          by (subst splitlines.simps) (simp only: nrn False if_False list.case)
        then show ?thesis using ih Cons False by simp
      qed
    qed
  qed
qed

lemmas splitlines_no_linebreak = splitlines_no_linebreak_all [rule_format]

lemma split_on_set_all: "\<forall>p \<in> set (split_on sep s). set p \<subseteq> set s \<and> sep \<notin> set p"
  by (induction s) (auto split: list.splits)

lemmas split_on_set = split_on_set_all [rule_format]

lemma strip_cell:
  assumes "set p \<subseteq> set l" and "124 \<notin> set p" and "10 \<notin> set l"
  shows "clean_cell (strip p) \<and> stripped isspace (strip p)"
proof -
  have s: "set (strip p) \<subseteq> set p" by (simp add: strip_def set_strip_chars)
  have 1: "124 \<notin> set (strip p)" using s assms(2) by blast
  have 2: "10 \<notin> set (strip p)" using s assms(1,3) by blast
  have 3: "stripped isspace (strip p)" by (simp add: strip_def stripped_strip_chars)
  show ?thesis using 1 2 3 by (simp add: clean_cell_def)
qed

lemma parse_line_cells:
  assumes "parse_line l = Some r" and "10 \<notin> set l"
  shows "good_row r"
proof -
  define cols where "cols = map strip (split_on 124 (strip_chars (\<lambda>c. c = 124) (strip l)))"
  have r: "r = take 5 cols" and len: "5 \<le> length cols"
    using assms(1) by (auto simp: cols_def Let_def split: if_splits)
  have "clean_cell c \<and> stripped isspace c" if "c \<in> set cols" for c
  proof -
    from that obtain p where p: "p \<in> set (split_on 124 (strip_chars (\<lambda>c. c = 124) (strip l)))"
      and c: "c = strip p" by (auto simp: cols_def)
    have "set (strip_chars (\<lambda>c. c = 124) (strip l)) \<subseteq> set l"
      using set_strip_chars[of "\<lambda>c. c = 124" "strip l"] set_strip_chars[of isspace l]
      by (auto simp: strip_def)
    then have "set p \<subseteq> set l" "124 \<notin> set p" using split_on_set[OF p] by auto
    then show ?thesis using strip_cell assms(2) c by blast
  qed
  then show ?thesis using r len by (auto simp: good_row_def dest: in_set_takeD)
qed

lemma parse_markdown_rows_good: "r \<in> set (parse_markdown_rows b) \<Longrightarrow> good_row r"
proof -
  assume "r \<in> set (parse_markdown_rows b)"
  then obtain l where l: "l \<in> set (splitlines b)" and p: "parse_line l = Some r"
    by (auto simp: parse_markdown_rows_def List.map_filter_def simp del: parse_line.simps)
  have "10 \<notin> set l" using splitlines_no_linebreak[OF l] by (auto simp: is_linebreak_def)
  then show ?thesis using parse_line_cells p by blast
qed

lemma existing_rows_good: "r \<in> set (existing_rows lower b ek pe) \<Longrightarrow> good_row r"
  using existing_rows_subset parse_markdown_rows_good by blast

subsection \<open>Normalization\<close>

lemma good_row_cell: "good_row r \<Longrightarrow> i < 5 \<Longrightarrow> sanitize_cell (r ! i) = r ! i"
  by (simp add: good_row_def sanitize_cell_id)

lemma normalize_row_link: "3 < length r \<Longrightarrow> normalize_row ml r ! 3 = sanitize_cell (r ! 3)"
  by (simp add: normalize_row_def Let_def nth_append)

lemma good_normalize_row: "good_row (normalize_row ml r)"
  using normalize_row_cells by (simp add: good_row_def)

lemma truncate_text_short: "max_len \<le> 0 \<or> int (length t) \<le> max_len \<Longrightarrow> truncate_text t max_len = t"
  by (auto simp: truncate_text_def)

lemma truncate_sanitize_fix:
  assumes "max_len \<le> 0 \<or> 3 \<le> max_len"
  shows "truncate_text (sanitize_cell (truncate_text s max_len)) max_len
           = sanitize_cell (truncate_text s max_len)"
proof (cases "max_len \<le> 0")
  case True
  then show ?thesis by (simp add: truncate_text_def)
next
  case False
  then have m: "3 \<le> max_len" using assms by simp
  have "int (length (truncate_text s max_len)) \<le> max_len"
  proof (cases "int (length s) \<le> max_len")
    case True
    then show ?thesis by (simp add: truncate_text_def)
  next
    case False
    then have "max_len < int (length s)" by simp
    from truncate_text_bound[OF m this] show ?thesis by blast
  qed
  then have "int (length (sanitize_cell (truncate_text s max_len))) \<le> max_len"
    using length_sanitize_cell[of "truncate_text s max_len"] by linarith
  then show ?thesis by (rule truncate_text_short[OF disjI2])
qed

lemma normalize_row_idem:
  assumes "ml \<le> 0 \<or> 3 \<le> ml"
  shows "normalize_row ml (normalize_row ml r) = normalize_row ml r"
proof -
  define cells where "cells = take 5 (r @ replicate 5 [])"
  have n: "normalize_row ml r = [sanitize_cell (cells ! 0), sanitize_cell (cells ! 1),
      sanitize_cell (cells ! 2), sanitize_cell (cells ! 3),
      sanitize_cell (truncate_text (cells ! 4) ml)]"
    by (simp add: normalize_row_def Let_def cells_def)
  show ?thesis
    unfolding n
    by (simp add: normalize_row_def Let_def sanitize_cell_idem truncate_sanitize_fix[OF assms])
qed

lemma normalize_good_row:
  assumes "good_row r" and "ml \<le> 0 \<or> int (length (r ! 4)) \<le> ml"
  shows "normalize_row ml r = r"
proof -
  have l: "length r = 5" using assms(1) by (simp add: good_row_def)
  then obtain a b c d e where r: "r = [a, b, c, d, e]"
    by (auto simp: eval_nat_numeral length_Suc_conv)
  have t: "truncate_text e ml = e" using assms(2) r by (auto simp: truncate_text_def)
  show ?thesis using assms(1) t
    by (simp add: r normalize_row_def Let_def good_row_def sanitize_cell_id)
qed

subsection \<open>The filter of new rows\<close>

lemma filtered_new_total:
  "\<forall>r \<in> set new. 3 < length r \<Longrightarrow> \<exists>fnew. filtered_new U new = Inr fnew"
  by (induction new) (auto simp: item_def Let_def)

lemma filtered_new_eq:
  "filtered_new U new = Inr fnew \<Longrightarrow>
     (\<forall>r \<in> set new. 3 < length r)
     \<and> fnew = filter (\<lambda>r. \<not> (extract_url (r ! 3) \<noteq> [] \<and> extract_url (r ! 3) \<in> U)) new"
proof (induction new arbitrary: fnew)
  case Nil
  then show ?case by simp
next
  case (Cons r rest)
  then show ?case
    by (auto simp: item_def Let_def split: if_splits sum.splits)
qed

lemma slice_to_prefix: "prefix (slice_to xs k) xs"
  by (simp add: slice_to_def take_is_prefix)

lemma merged_rows_prefix: "prefix (merged_rows fnew ex mt ml) (map (normalize_row ml) (fnew @ ex))"
  by (simp add: merged_rows_def Let_def slice_to_prefix)

lemma merged_rows_untruncated:
  "mt = 0 \<or> int (length fnew + length ex) \<le> mt
     \<Longrightarrow> merged_rows fnew ex mt ml = map (normalize_row ml) (fnew @ ex)"
  by (auto simp: merged_rows_def Let_def)

subsection \<open>Sorting\<close>






subsection \<open>Merging\<close>

lemma filtered_new_filter:
  "\<forall>r \<in> set new. 3 < length r \<Longrightarrow>
     filtered_new U new = Inr (filter (\<lambda>r. \<not> (link_url r \<noteq> [] \<and> link_url r \<in> U)) new)"
  by (induction new) (auto simp: item_def Let_def link_url_def)

lemma filtered_new_Inr:
  assumes "filtered_new U new = Inr fnew"
  shows "(\<forall>r \<in> set new. 3 < length r)
     \<and> fnew = filter (\<lambda>r. \<not> (link_url r \<noteq> [] \<and> link_url r \<in> U)) new"
  using filtered_new_eq[OF assms] by (simp add: link_url_def)

lemma existing_urls_good:
  "\<forall>r \<in> set rows. good_row r \<Longrightarrow>
     existing_urls rows = Inr (set (filter (\<lambda>u. u \<noteq> []) (map link_url rows)))"
proof -
  assume g: "\<forall>r \<in> set rows. good_row r"
  then have "\<forall>r \<in> set rows. 3 < length r" by (simp add: good_row_def)
  moreover have "(\<lambda>r. extract_url (r ! 3)) = link_url" by (rule ext) (simp add: link_url_def)
  ultimately show ?thesis by (simp add: existing_urls_def)
qed

lemma in_url_set: "u \<in> set (filter (\<lambda>u. u \<noteq> []) (map link_url rows)) \<longleftrightarrow> u \<noteq> [] \<and> u \<in> link_url ` set rows"
  by auto

lemma link_url_normalize:
  "3 < length r \<Longrightarrow> sanitize_cell (r ! 3) = r ! 3 \<Longrightarrow> link_url (normalize_row ml r) = link_url r"
  by (simp add: link_url_def normalize_row_link)

lemma link_url_normalize_good: "good_row r \<Longrightarrow> link_url (normalize_row ml r) = link_url r"
  by (rule link_url_normalize) (simp_all add: good_row_def sanitize_cell_id)

lemma url_filter_eq:
  "filter (\<lambda>r. \<not> (link_url r \<noteq> [] \<and> link_url r \<in> set (filter (\<lambda>u. u \<noteq> []) (map link_url ex)))) new
      = filter (\<lambda>r. \<not> (link_url r \<noteq> [] \<and> link_url r \<in> link_url ` set ex)) new"
  by (rule filter_cong[OF refl]) auto

lemma merge_table_rows:
  assumes "merge_table lower b new mt ml ek pe = Inr (rows, n)"
  shows "\<exists>fnew. (\<forall>r \<in> set new. 3 < length r)
       \<and> fnew = filter (\<lambda>r. \<not> (link_url r \<noteq> [] \<and> link_url r \<in> link_url ` set (existing_rows lower b ek pe))) new
       \<and> rows = merged_rows fnew (existing_rows lower b ek pe) mt ml \<and> n = length fnew"
proof -
  from merge_table_Inr[OF assms] obtain fnew where
    f: "filtered_new (set (filter (\<lambda>u. u \<noteq> []) (map (\<lambda>r. extract_url (r ! 3)) (existing_rows lower b ek pe)))) new = Inr fnew"
    and r: "rows = merged_rows fnew (existing_rows lower b ek pe) mt ml" and n: "n = length fnew"
    by blast
  have e: "(\<lambda>r. extract_url (r ! 3)) = link_url" by (rule ext) (simp add: link_url_def)
  from filtered_new_Inr[OF f] have l: "\<forall>r \<in> set new. 3 < length r"
    and "fnew = filter (\<lambda>r. \<not> (link_url r \<noteq> [] \<and> link_url r \<in> set (filter (\<lambda>u. u \<noteq> []) (map link_url (existing_rows lower b ek pe))))) new"
    unfolding e by blast+
  then have "fnew = filter (\<lambda>r. \<not> (link_url r \<noteq> [] \<and> link_url r \<in> link_url ` set (existing_rows lower b ek pe))) new"
    by (simp only: url_filter_eq)
  then show ?thesis using l r n by blast
qed

lemma merge_table_total:
  assumes "\<forall>r \<in> set new. 3 < length r"
  shows "merge_table lower b new mt ml ek pe =
     Inr (merged_rows (filter (\<lambda>r. \<not> (link_url r \<noteq> [] \<and> link_url r \<in> link_url ` set (existing_rows lower b ek pe))) new)
            (existing_rows lower b ek pe) mt ml,
          length (filter (\<lambda>r. \<not> (link_url r \<noteq> [] \<and> link_url r \<in> link_url ` set (existing_rows lower b ek pe))) new))"
proof -
  have g: "\<forall>r \<in> set (existing_rows lower b ek pe). good_row r"
    using existing_rows_good by blast
  show ?thesis
    unfolding merge_table_def Let_def existing_urls_good[OF g] filtered_new_filter[OF assms]
      url_filter_eq
    by (simp only: sum.case url_filter_eq)
qed

lemma count_list_map_ge: "count_list xs x \<le> count_list (map f xs) (f x)"
  by (induction xs) auto

lemma count_list_pos: "x \<in> set xs \<Longrightarrow> 1 \<le> count_list xs x"
  by (induction xs) auto

subsection \<open>Rendering and parsing back\<close>

lemma splitlines_line:
  "\<forall>x \<in> set l. \<not> is_linebreak x \<Longrightarrow> splitlines (l @ 10 # rest) = l # splitlines rest"
proof (induction l)
  case Nil
  show ?case by (cases rest) (simp_all add: is_linebreak_def)
next
  case (Cons c l)
  obtain d cs where dcs: "l @ 10 # rest = d # cs" by (cases "l @ 10 # rest") auto
  have c: "\<not> is_linebreak c" "c \<noteq> 13" using Cons.prems by (auto simp: is_linebreak_def)
  have ih: "splitlines (d # cs) = l # splitlines rest" using Cons dcs by simp
  have "splitlines (c # d # cs) = (c # l) # splitlines rest"
    by (subst splitlines.simps) (simp add: c ih)
  then show ?case using dcs by simp
qed

lemma splitlines_lines:
  "\<forall>l \<in> set ls. \<forall>x \<in> set l. \<not> is_linebreak x
     \<Longrightarrow> splitlines (concat (map (\<lambda>l. l @ [10]) ls)) = ls"
  by (induction ls) (simp_all add: splitlines_line)

lemma join_newline:
  "ls \<noteq> [] \<Longrightarrow> join [10] ls @ [10] = concat (map (\<lambda>l. l @ [10]) ls)"
proof (induction ls)
  case Nil
  then show ?case by simp
next
  case (Cons l ls)
  then show ?case by (cases ls) simp_all
qed

lemma split_on_piece:
  "sep \<notin> set a \<Longrightarrow> split_on sep (a @ sep # rest) = a # split_on sep rest"
  by (induction a) auto

lemma split_on_last: "sep \<notin> set a \<Longrightarrow> split_on sep a = [a]"
  by (induction a) auto

lemma strip_chars_padded:
  assumes "P a" and "P b" and "stripped P m"
  shows "strip_chars P (a # m @ [b]) = m"
proof (cases m)
  case Nil
  then show ?thesis using assms by (simp add: strip_chars_def)
next
  case (Cons h t)
  then have h: "\<not> P h" "\<not> P (last m)" using assms(3) by (auto simp: stripped_def)
  obtain ys x where ys: "m = ys @ [x]" using Cons by (metis rev_exhaust list.distinct(1))
  then have x: "\<not> P x" using h(2) by simp
  have 1: "dropWhile P (a # m @ [b]) = m @ [b]" using assms(1) h(1) Cons by simp
  have 2: "dropWhile P (rev (m @ [b])) = rev m" using assms(2) x by (simp add: ys)
  show ?thesis unfolding strip_chars_def 1 2 by simp
qed

lemma map_filter_map_Some:
  "\<forall>x \<in> set xs. f (g x) = Some x \<Longrightarrow> List.map_filter f (map g xs) = xs"
  by (induction xs) (simp_all add: List.map_filter_def)

lemma parse_line_skipped:
  "parse_line [] = None" "parse_line TABLE_HEADER = None" "parse_line TABLE_DIVIDER = None"
  by (simp_all add: TABLE_HEADER_def TABLE_DIVIDER_def HDR_CATEGORY_def HDR_DEVELOPER_def
      Let_def str_ev)

lemma render_row_five:
  "render_row [c0, c1, c2, c3, c4] =
     124 # (32 # c0 @ [32]) @ 124 # (32 # c1 @ [32]) @ 124 # (32 # c2 @ [32])
       @ 124 # (32 # c3 @ [32]) @ 124 # (32 # c4 @ [32]) @ [124]"
  by (simp add: render_row_def ascii_def)

lemma isspace_32: "isspace 32" and not_isspace_124: "\<not> isspace 124"
  by (simp_all add: isspace_def)

lemma strip_padded_cell: "stripped isspace c \<Longrightarrow> strip (32 # c @ [32]) = c"
  unfolding strip_def by (rule strip_chars_padded) (simp_all add: isspace_32)

lemma parse_line_render_row:
  assumes "printable_row r"
  shows "parse_line (render_row r) = Some r"
proof -
  have g: "good_row r" and h: "\<not> (r ! 0 = HDR_CATEGORY \<and> r ! 1 = HDR_DEVELOPER)"
    using assms by (simp_all add: printable_row_def)
  from g have "length r = 5" by (simp add: good_row_def)
  then obtain c0 c1 c2 c3 c4 where r: "r = [c0, c1, c2, c3, c4]"
    by (auto simp: eval_nat_numeral length_Suc_conv)
  have cl: "124 \<notin> set c0" "124 \<notin> set c1" "124 \<notin> set c2" "124 \<notin> set c3" "124 \<notin> set c4"
    and st: "stripped isspace c0" "stripped isspace c1" "stripped isspace c2"
      "stripped isspace c3" "stripped isspace c4"
    using g by (simp_all add: r good_row_def clean_cell_def)
  define p0 where "p0 = 32 # c0 @ [32]"
  define p1 where "p1 = 32 # c1 @ [32]"
  define p2 where "p2 = 32 # c2 @ [32]"
  define p3 where "p3 = 32 # c3 @ [32]"
  define p4 where "p4 = 32 # c4 @ [32]"
  define body where "body = p0 @ 124 # p1 @ 124 # p2 @ 124 # p3 @ 124 # p4"
  have np: "124 \<notin> set p0" "124 \<notin> set p1" "124 \<notin> set p2" "124 \<notin> set p3" "124 \<notin> set p4"
    using cl by (simp_all add: p0_def p1_def p2_def p3_def p4_def)
  have line: "render_row r = 124 # body @ [124]"
    by (simp add: r render_row_five body_def p0_def p1_def p2_def p3_def p4_def)
  have sb: "stripped (\<lambda>c. c = 124) body"
    by (simp add: stripped_def body_def p0_def p4_def)
  have sl: "stripped isspace (124 # body @ [124])" by (simp add: stripped_def not_isspace_124)
  have 1: "strip (render_row r) = 124 # body @ [124]"
    unfolding line strip_def by (rule strip_chars_id[OF sl])
  have 2: "strip_chars (\<lambda>c. c = 124) (124 # body @ [124]) = body"
    by (rule strip_chars_padded) (simp_all add: sb)
  have 3: "split_on 124 body = [p0, p1, p2, p3, p4]"
    unfolding body_def
    by (simp only: split_on_piece[OF np(1)] split_on_piece[OF np(2)] split_on_piece[OF np(3)]
        split_on_piece[OF np(4)] split_on_last[OF np(5)])
  have 4: "map strip (split_on 124 body) = r"
    unfolding 3 r using st by (simp add: strip_padded_cell p0_def p1_def p2_def p3_def p4_def)
  have 5: "prefix (ascii ''|'') (124 # body @ [124])" by (simp add: ascii_def)
  have 6: "\<not> prefix (ascii ''|---'') (124 # body @ [124])"
    by (simp add: ascii_def body_def p0_def)
  have 7: "\<not> (length r < 5)" "take 5 r = r" by (simp_all add: r)
  show ?thesis
    unfolding parse_line.simps Let_def 1 2 4 using 5 6 7 h by simp
qed

lemma render_row_no_linebreak:
  assumes "printable_row r" and "x \<in> set (render_row r)"
  shows "\<not> is_linebreak x"
proof -
  have "length r = 5" using assms(1) by (simp add: printable_row_def good_row_def)
  then obtain c0 c1 c2 c3 c4 where r: "r = [c0, c1, c2, c3, c4]"
    by (auto simp: eval_nat_numeral length_Suc_conv)
  have c: "\<forall>c \<in> set r. \<forall>x \<in> set c. \<not> is_linebreak x"
    using assms(1) by (simp add: printable_row_def)
  have "x = 124 \<or> x = 32 \<or> (\<exists>c \<in> set r. x \<in> set c)"
    using assms(2) by (auto simp: r render_row_five)
  moreover have "\<not> is_linebreak 124" "\<not> is_linebreak 32" by (simp_all add: is_linebreak_def)
  ultimately show ?thesis using c by auto
qed

lemma header_no_linebreak:
  "\<forall>x \<in> set TABLE_HEADER. \<not> is_linebreak x" "\<forall>x \<in> set TABLE_DIVIDER. \<not> is_linebreak x"
  by (simp_all add: TABLE_HEADER_def TABLE_DIVIDER_def HDR_CATEGORY_def HDR_DEVELOPER_def
      ascii_def is_linebreak_def)

lemma parse_build_table_text:
  assumes "\<forall>r \<in> set rows. printable_row r"
  shows "parse_markdown_rows ([10] @ build_table_text rows @ [10]) = rows"
proof -
  define ls where "ls = [] # TABLE_HEADER # TABLE_DIVIDER # map render_row rows"
  have clean: "\<forall>l \<in> set ls. \<forall>x \<in> set l. \<not> is_linebreak x"
    using header_no_linebreak render_row_no_linebreak assms by (auto simp: ls_def)
  have "[10] @ build_table_text rows @ [10] = concat (map (\<lambda>l. l @ [10]) ls)"
    using join_newline[of "TABLE_HEADER # TABLE_DIVIDER # map render_row rows"]
    by (simp add: build_table_text_def ls_def)
  then have "splitlines ([10] @ build_table_text rows @ [10]) = ls"
    using splitlines_lines[OF clean] by simp
  then have "parse_markdown_rows ([10] @ build_table_text rows @ [10])
      = List.map_filter parse_line (map render_row rows)"
    by (simp add: parse_markdown_rows_def ls_def List.map_filter_def parse_line_skipped
        del: parse_line.simps)
  also have "\<dots> = rows"
    by (rule map_filter_map_Some) (use assms parse_line_render_row in blast)
  finally show ?thesis .
qed

subsection \<open>Searching in a spliced document\<close>

lemma prefix_not_across:
  assumes "prefix sub (a @ x # b)" and "x \<notin> set sub"
  shows "prefix sub a"
proof -
  from assms(1) obtain t where t: "a @ x # b = sub @ t" by (auto simp: prefix_def)
  show ?thesis
  proof (cases "length sub \<le> length a")
    case True
    then have "sub = take (length sub) a" using t
      by (metis append_eq_conv_conj take_append diff_is_0_eq take_0 append_Nil2)
    then show ?thesis by (metis take_is_prefix)
  next
    case False
    then have "length a < length sub" by simp
    then have "sub ! length a = (a @ x # b) ! length a" using t by (simp add: nth_append)
    then have "sub ! length a = x" by simp
    then have "x \<in> set sub" using \<open>length a < length sub\<close> by (metis nth_mem)
    then show ?thesis using assms(2) by simp
  qed
qed

lemma find_index_skip:
  assumes "\<not> sublist sub a" and "x \<notin> set sub" and "sub \<noteq> []"
  shows "find_index sub (a @ x # rest) = map_option (\<lambda>i. i + length a + 1) (find_index sub rest)"
  using assms(1)
proof (induction a)
  case Nil
  have "\<not> prefix sub (x # rest)" using assms(2,3) by (cases sub) auto
  then show ?case by (simp add: option.map_comp comp_def)
next
  case (Cons c a)
  have 1: "\<not> sublist sub a" and 2: "\<not> prefix sub (c # a)"
    using Cons.prems by (auto simp: sublist_Cons_right)
  have "\<not> prefix sub ((c # a) @ x # rest)" using prefix_not_across[OF _ assms(2)] 2 by blast
  then show ?case using Cons.IH[OF 1] by (simp add: option.map_comp comp_def)
qed

lemma find_index_here: "find_index sub (sub @ rest) = Some 0"
proof (cases "sub @ rest")
  case Nil
  then show ?thesis by simp
next
  case (Cons a l)
  then have "prefix sub (a # l)" by (metis prefixI)
  then show ?thesis unfolding Cons by simp
qed

lemma find_index_Some:
  "find_index sub s = Some i \<Longrightarrow> \<exists>t. s = take i s @ sub @ t \<and> i \<le> length s"
proof (induction s arbitrary: i)
  case Nil
  then show ?case by (auto split: if_splits)
next
  case (Cons c s)
  show ?case
  proof (cases "prefix sub (c # s)")
    case True
    then show ?thesis using Cons.prems by (auto simp: prefix_def)
  next
    case False
    then obtain j where j: "find_index sub s = Some j" "i = Suc j" using Cons.prems by auto
    from Cons.IH[OF j(1)] obtain t where "s = take j s @ sub @ t" "j \<le> length s" by blast
    then show ?thesis using j(2) by (metis append_Cons take_Suc_Cons length_Cons Suc_le_mono)
  qed
qed

lemma find_index_first:
  "find_index sub s = Some i \<Longrightarrow> s = u @ sub @ w \<Longrightarrow> i \<le> length u"
proof (induction s arbitrary: i u)
  case Nil
  then show ?case by (auto split: if_splits)
next
  case (Cons c s)
  show ?case
  proof (cases "prefix sub (c # s)")
    case True
    with Cons.prems(1) have "i = 0" by simp
    then show ?thesis by simp
  next
    case False
    then obtain j where j: "find_index sub s = Some j" "i = Suc j" using Cons.prems(1) by auto
    have "u \<noteq> []" using False Cons.prems(2) by (auto simp: prefix_def)
    then obtain u' where u: "u = c # u'" using Cons.prems(2) by (cases u) auto
    then have "s = u' @ sub @ w" using Cons.prems(2) by simp
    from Cons.IH[OF j(1) this] show ?thesis using j(2) u by simp
  qed
qed

lemma find_index_splice_same:
  assumes "find_index sub s = Some i"
  shows "find_index sub (take i s @ sub @ rest) = Some i"
  using assms
proof (induction s arbitrary: i)
  case Nil
  then show ?case by (auto split: if_splits simp: find_index_here)
next
  case (Cons c s)
  show ?case
  proof (cases "prefix sub (c # s)")
    case True
    then have "i = 0" using Cons.prems by simp
    then show ?thesis by (simp add: find_index_here)
  next
    case False
    then obtain j where j: "find_index sub s = Some j" "i = Suc j" using Cons.prems by auto
    from find_index_Some[OF j(1)] obtain t where t: "s = take j s @ sub @ t" by blast
    have "\<not> prefix sub (c # take j s @ sub @ rest)"
    proof
      assume p: "prefix sub (c # take j s @ sub @ rest)"
      have "length sub \<le> length (c # take j s @ sub)" by simp
      then have "prefix sub (c # take j s @ sub)"
        using p by (metis append_Cons append_assoc prefix_length_prefix prefixI)
      then have "prefix sub (c # take j s @ sub @ t)"
        by (metis append_Cons append_assoc prefix_prefix)
      then show False using False t by simp
    qed
    then show ?thesis using Cons.IH[OF j(1)] j(2) by simp
  qed
qed

lemma markers_differ: "\<not> sublist AUTO_END AUTO_START" "10 \<notin> set AUTO_END" "AUTO_END \<noteq> []"
  "length AUTO_START = 29" "length AUTO_END = 27"
  by (simp_all add: AUTO_START_def AUTO_END_def ascii_def sublist_code)

lemma no_end_before_start:
  assumes "find_index AUTO_START content = Some s" and "find_index AUTO_END content = Some e"
    and "s \<le> e"
  shows "\<not> sublist AUTO_END (take s content @ AUTO_START)"
proof
  assume "sublist AUTO_END (take s content @ AUTO_START)"
  then obtain u v where uv: "take s content @ AUTO_START = u @ AUTO_END @ v"
    by (auto simp: sublist_def)
  from find_index_Some[OF assms(1)] obtain t where
    t: "content = take s content @ AUTO_START @ t" and sl: "s \<le> length content" by blast
  have "content = u @ AUTO_END @ (v @ t)" using t uv by (metis append_assoc)
  from find_index_first[OF assms(2) this] have "s \<le> length u" using assms(3) by simp
  have "drop s (take s content @ AUTO_START) = AUTO_START" using sl by simp
  moreover have "drop s (u @ AUTO_END @ v) = drop s u @ AUTO_END @ v"
    using \<open>s \<le> length u\<close> by simp
  ultimately have "AUTO_START = drop s u @ AUTO_END @ v" using uv by simp
  then have "sublist AUTO_END AUTO_START" by (metis sublist_appendI)
  then show False using markers_differ(1) by simp
qed

lemma find_in_spliced:
  assumes "find_index AUTO_START content = Some s" and "find_index AUTO_END content = Some e"
    and "s \<le> e" and "\<not> sublist AUTO_END t"
  shows "find_index AUTO_START (take s content @ AUTO_START @ [10] @ t @ [10] @ AUTO_END @ rest) = Some s"
    and "find_index AUTO_END (take s content @ AUTO_START @ [10] @ t @ [10] @ AUTO_END @ rest)
           = Some (s + 31 + length t)"
proof -
  show "find_index AUTO_START (take s content @ AUTO_START @ [10] @ t @ [10] @ AUTO_END @ rest) = Some s"
    by (rule find_index_splice_same[OF assms(1)])
  from find_index_Some[OF assms(1)] have sl: "s \<le> length content" by blast
  have a: "\<not> sublist AUTO_END (take s content @ AUTO_START)"
    by (rule no_end_before_start[OF assms(1,2,3)])
  have "find_index AUTO_END ((take s content @ AUTO_START) @ 10 # (t @ 10 # (AUTO_END @ rest)))
      = map_option (\<lambda>i. i + length (take s content @ AUTO_START) + 1)
          (find_index AUTO_END (t @ 10 # (AUTO_END @ rest)))"
    by (rule find_index_skip[OF a markers_differ(2,3)])
  also have "find_index AUTO_END (t @ 10 # (AUTO_END @ rest))
      = map_option (\<lambda>i. i + length t + 1) (find_index AUTO_END (AUTO_END @ rest))"
    by (rule find_index_skip[OF assms(4) markers_differ(2,3)])
  finally have "find_index AUTO_END ((take s content @ AUTO_START) @ 10 # (t @ 10 # (AUTO_END @ rest)))
      = Some (s + 31 + length t)"
    using sl by (simp add: find_index_here markers_differ(4))
  then show "find_index AUTO_END (take s content @ AUTO_START @ [10] @ t @ [10] @ AUTO_END @ rest)
           = Some (s + 31 + length t)"
    by simp
qed

lemma py_find_Some: "find_index sub s = Some i \<Longrightarrow> py_find s sub = int i"
  by (simp add: py_find_def)

lemma py_find_nonneg:
  "py_find s sub \<noteq> -1 \<Longrightarrow> find_index sub s = Some (nat (py_find s sub)) \<and> 0 \<le> py_find s sub"
  by (auto simp: py_find_def split: option.splits)

lemma spliced_again:
  assumes "find_index AUTO_START content = Some s" and "find_index AUTO_END content = Some e"
    and "s \<le> e" and "\<not> sublist AUTO_END (build_table_text rows)"
  shows "py_find (splice content (int s) (int e) rows) AUTO_START = int s"
    and "py_find (splice content (int s) (int e) rows) AUTO_END
           = int (s + 31 + length (build_table_text rows))"
    and "block_of (splice content (int s) (int e) rows) (int s)
           (int (s + 31 + length (build_table_text rows))) = [10] @ build_table_text rows @ [10]"
    and "splice (splice content (int s) (int e) rows) (int s)
           (int (s + 31 + length (build_table_text rows))) rows' = splice content (int s) (int e) rows'"
proof -
  define t where "t = build_table_text rows"
  define rest where "rest = drop (e + length AUTO_END) content"
  have sp: "splice content (int s) (int e) rows
      = take s content @ AUTO_START @ [10] @ t @ [10] @ AUTO_END @ rest"
    by (simp add: splice_def t_def rest_def)
  from find_index_Some[OF assms(1)] have sl: "s \<le> length content" by blast
  have nt: "\<not> sublist AUTO_END t" using assms(4) by (simp add: t_def)
  show "py_find (splice content (int s) (int e) rows) AUTO_START = int s"
    unfolding sp by (rule py_find_Some[OF find_in_spliced(1)[OF assms(1,2,3) nt]])
  show "py_find (splice content (int s) (int e) rows) AUTO_END
           = int (s + 31 + length (build_table_text rows))"
    unfolding sp t_def[symmetric] by (rule py_find_Some[OF find_in_spliced(2)[OF assms(1,2,3) nt]])
  show "block_of (splice content (int s) (int e) rows) (int s)
           (int (s + 31 + length (build_table_text rows))) = [10] @ build_table_text rows @ [10]"
  proof -
    have k: "nat (int s + 31 + int (length t)) - (s + 29) = Suc (Suc (length t))" by arith
    show ?thesis
      unfolding sp t_def[symmetric] using sl by (simp add: block_of_def markers_differ(4) k)
  qed
  show "splice (splice content (int s) (int e) rows) (int s)
           (int (s + 31 + length (build_table_text rows))) rows' = splice content (int s) (int e) rows'"
  proof -
    define x where "x = take s content @ AUTO_START @ [10] @ t @ [10] @ AUTO_END @ rest"
    have tk: "take s x = take s content" using sl by (simp add: x_def)
    have "length (take s content @ AUTO_START @ [10] @ t @ [10] @ AUTO_END) = s + 31 + length t + 27"
      using sl by (simp add: markers_differ(4,5))
    then have dr: "drop (s + 31 + length t + 27) x = rest"
      unfolding x_def by (metis append_assoc append_eq_conv_conj)
    have "splice x (int s) (int (s + 31 + length t)) rows'
        = take s x @ (AUTO_START @ [10] @ build_table_text rows' @ [10] @ AUTO_END)
            @ drop (s + 31 + length t + 27) x"
      by (simp only: splice_def nat_int markers_differ(5))
    also have "\<dots> = splice content (int s) (int e) rows'"
      by (simp only: tk dr splice_def nat_int rest_def)
    finally show ?thesis unfolding sp t_def[symmetric] x_def .
  qed
qed

subsection \<open>The characters of the written document\<close>

lemma set_sanitize_cell: "set (sanitize_cell c) \<subseteq> (set c - {10, 124}) \<union> {0xFF0F, 32}"
proof -
  have "set (sanitize_cell c) \<subseteq> set (replace_char 10 32 (replace_char 124 0xFF0F c))"
    by (simp add: sanitize_cell_def strip_def set_strip_chars)
  also have "\<dots> \<subseteq> (set c - {10, 124}) \<union> {0xFF0F, 32}"
    by (auto simp: replace_char_def)
  finally show ?thesis .
qed

lemma set_truncate_text: "set (truncate_text c ml) \<subseteq> insert 46 (set c)"
proof -
  have "set (rstrip (slice_to c (ml - 3))) \<subseteq> set c"
    using set_dropWhileD[of _ isspace "rev (slice_to c (ml - 3))"] set_slice_to[of c "ml - 3"]
    by (auto simp: rstrip_def)
  then show ?thesis by (auto simp: truncate_text_def ascii_def)
qed

lemma splitlines_subset_all: "\<forall>l \<in> set (splitlines s). set l \<subseteq> set s"
proof (induction s rule: splitlines.induct)
  case 1
  then show ?case by simp
next
  case (2 c)
  then show ?case by simp
next
  case (3 c d cs)
  show ?case
  proof (cases "c = 13 \<and> d = 10")
    case True
    have "splitlines (c # d # cs) = [] # splitlines cs" using True by simp
    then show ?thesis using 3(1)[OF True] by auto
  next
    case nrn: False
    show ?thesis
    proof (cases "is_linebreak c")
      case True
      have "splitlines (c # d # cs) = [] # splitlines (d # cs)"
        by (subst splitlines.simps) (simp only: nrn True if_False if_True)
      then show ?thesis using 3(2)[OF nrn True] by auto
    next
      case False
      have ih: "\<forall>l \<in> set (splitlines (d # cs)). set l \<subseteq> set (d # cs)"
        using 3(3)[OF nrn False] .
      show ?thesis
      proof (cases "splitlines (d # cs)")
        case Nil
        then have "splitlines (c # d # cs) = [[c]]"
          by (subst splitlines.simps) (simp only: nrn False if_False list.case)
        then show ?thesis by simp
      next
        case (Cons l ls)
        then have "splitlines (c # d # cs) = (c # l) # ls"
          by (subst splitlines.simps) (simp only: nrn False if_False list.case)
        then show ?thesis using ih Cons by auto
      qed
    qed
  qed
qed

lemmas splitlines_subset = splitlines_subset_all [rule_format]

lemma parse_line_printable:
  assumes "parse_line l = Some r" and "\<forall>x \<in> set l. \<not> is_linebreak x"
  shows "printable_row r" and "\<forall>c \<in> set r. set c \<subseteq> set l"
proof -
  define cols where "cols = map strip (split_on 124 (strip_chars (\<lambda>c. c = 124) (strip l)))"
  have r: "r = take 5 cols" and len: "5 \<le> length cols"
    and h: "\<not> (cols ! 0 = HDR_CATEGORY \<and> cols ! 1 = HDR_DEVELOPER)"
    using assms(1) by (auto simp: cols_def Let_def split: if_splits)
  have 10: "10 \<notin> set l" using assms(2) by (auto simp: is_linebreak_def)
  have g: "good_row r" by (rule parse_line_cells[OF assms(1) 10])
  have sub: "set c \<subseteq> set l" if "c \<in> set cols" for c
  proof -
    from that obtain p where p: "p \<in> set (split_on 124 (strip_chars (\<lambda>c. c = 124) (strip l)))"
      and c: "c = strip p" by (auto simp: cols_def)
    have "set (strip_chars (\<lambda>c. c = 124) (strip l)) \<subseteq> set l"
      using set_strip_chars[of "\<lambda>c. c = 124" "strip l"] set_strip_chars[of isspace l]
      by (auto simp: strip_def)
    moreover have "set p \<subseteq> set (strip_chars (\<lambda>c. c = 124) (strip l))"
      using split_on_set[OF p] by simp
    moreover have "set c \<subseteq> set p" by (simp add: c strip_def set_strip_chars)
    ultimately show ?thesis by blast
  qed
  show s: "\<forall>c \<in> set r. set c \<subseteq> set l" using sub r by (auto dest: in_set_takeD)
  have "r ! 0 = cols ! 0" "r ! 1 = cols ! 1" using len by (simp_all add: r)
  then show "printable_row r" using g s h assms(2) by (auto simp: printable_row_def)
qed

lemma parse_markdown_rows_printable:
  assumes "r \<in> set (parse_markdown_rows b)"
  shows "printable_row r" and "\<forall>c \<in> set r. set c \<subseteq> set b"
proof -
  from assms obtain l where l: "l \<in> set (splitlines b)" and p: "parse_line l = Some r"
    by (auto simp: parse_markdown_rows_def List.map_filter_def simp del: parse_line.simps)
  have n: "\<forall>x \<in> set l. \<not> is_linebreak x" using splitlines_no_linebreak[OF l] by blast
  show "printable_row r" by (rule parse_line_printable(1)[OF p n])
  show "\<forall>c \<in> set r. set c \<subseteq> set b"
    using parse_line_printable(2)[OF p n] splitlines_subset[OF l] by blast
qed

lemma set_block_of: "set (block_of content s e) \<subseteq> set content"
  by (auto simp: block_of_def dest: in_set_takeD in_set_dropD)

lemma set_join: "set (join sep ls) \<subseteq> set sep \<union> \<Union> (set ` set ls)"
  by (induction sep ls rule: join.induct) auto

lemma set_render_row: "set (render_row r) \<subseteq> {124, 32} \<union> \<Union> (set ` set r)"
proof -
  define cells where "cells = take 5 (r @ replicate (5 - length r) [])"
  have "set cells \<subseteq> insert [] (set r)"
    unfolding cells_def by (auto dest!: in_set_takeD)
  then have c: "\<Union> (set ` set cells) \<subseteq> \<Union> (set ` set r)" by auto
  have s: "set (ascii '' | '') = {124, 32}" by (auto simp: ascii_def)
  have j: "set (join (ascii '' | '') cells) \<subseteq> {124, 32} \<union> \<Union> (set ` set cells)"
    using set_join[of "ascii '' | ''" cells] unfolding s .
  have "render_row r = ascii ''| '' @ join (ascii '' | '') cells @ ascii '' |''"
    by (simp add: render_row_def Let_def cells_def)
  moreover have "set (ascii ''| '') = {124, 32}" "set (ascii '' |'') = {124, 32}"
    by (auto simp: ascii_def)
  ultimately have "set (render_row r) = {124, 32} \<union> set (join (ascii '' | '') cells)"
    by (simp only: set_append) blast
  then show ?thesis using j c by blast
qed

lemma set_build_table_text:
  "set (build_table_text rows) \<subseteq> fixed_chars \<union> (\<Union>r \<in> set rows. \<Union> (set ` set r))"
proof -
  define ls where "ls = [TABLE_HEADER, TABLE_DIVIDER] @ map render_row rows"
  have r: "\<Union> (set ` set (map render_row rows))
      \<subseteq> {124, 32} \<union> (\<Union>r \<in> set rows. \<Union> (set ` set r))"
    using set_render_row by fastforce
  have "\<Union> (set ` set ls) = set TABLE_HEADER \<union> set TABLE_DIVIDER
      \<union> \<Union> (set ` set (map render_row rows))"
    by (auto simp: ls_def)
  then have l: "\<Union> (set ` set ls) \<subseteq> fixed_chars \<union> (\<Union>r \<in> set rows. \<Union> (set ` set r))"
    using r unfolding fixed_chars_def by blast
  have "set (join [10] ls) \<subseteq> set [10] \<union> \<Union> (set ` set ls)" by (rule set_join)
  moreover have "set [10::nat] \<subseteq> fixed_chars" by (simp add: fixed_chars_def)
  moreover have "build_table_text rows = join [10] ls" by (simp add: build_table_text_def ls_def)
  ultimately show ?thesis using l by auto
qed

lemma set_splice:
  "set (splice content s e rows)
     \<subseteq> set content \<union> fixed_chars \<union> (\<Union>r \<in> set rows. \<Union> (set ` set r))"
  using set_build_table_text[of rows]
  by (auto simp: splice_def fixed_chars_def dest: in_set_takeD in_set_dropD)

lemma fixed_chars_plain: "x \<in> fixed_chars \<Longrightarrow> x \<noteq> 13 \<and> \<not> is_surrogate x"
  by (auto simp: fixed_chars_def AUTO_START_def AUTO_END_def TABLE_HEADER_def TABLE_DIVIDER_def
      HDR_CATEGORY_def HDR_DEVELOPER_def ascii_def is_surrogate_def)

lemma normalize_row_chars:
  assumes "c \<in> set (normalize_row ml r)" and "x \<in> set c"
  shows "x \<in> {0xFF0F, 32, 46} \<or> (x \<noteq> 10 \<and> x \<noteq> 124 \<and> (\<exists>c' \<in> set r. x \<in> set c'))"
proof -
  define cells where "cells = take 5 (r @ replicate 5 [])"
  have len: "length cells = 5" by (simp add: cells_def)
  have "set cells \<subseteq> insert [] (set r)" unfolding cells_def by (auto dest!: in_set_takeD)
  then have sub: "set (cells ! i) \<subseteq> \<Union> (set ` set r)" if "i < 5" for i
    using nth_mem[of i cells] that len by fastforce
  have s: "set (cells ! i) \<subseteq> insert 46 (\<Union> (set ` set r))" if "i < 5" for i
    using sub[OF that] by (rule subset_trans) (rule subset_insertI)
  have s0: "set (cells ! 0) \<subseteq> insert 46 (\<Union> (set ` set r))" by (rule s) simp
  have s1: "set (cells ! 1) \<subseteq> insert 46 (\<Union> (set ` set r))" by (rule s) simp
  have s2: "set (cells ! 2) \<subseteq> insert 46 (\<Union> (set ` set r))" by (rule s) simp
  have s3: "set (cells ! 3) \<subseteq> insert 46 (\<Union> (set ` set r))" by (rule s) simp
  have s4: "set (cells ! 4) \<subseteq> insert 46 (\<Union> (set ` set r))" by (rule s) simp
  have "set (truncate_text (cells ! 4) ml) \<subseteq> insert 46 (set (cells ! 4))"
    by (rule set_truncate_text)
  also have "\<dots> \<subseteq> insert 46 (\<Union> (set ` set r))" using s4 by simp
  finally have t: "set (truncate_text (cells ! 4) ml) \<subseteq> insert 46 (\<Union> (set ` set r))" .
  have "c = sanitize_cell (cells ! 0) \<or> c = sanitize_cell (cells ! 1)
      \<or> c = sanitize_cell (cells ! 2) \<or> c = sanitize_cell (cells ! 3)
      \<or> c = sanitize_cell (truncate_text (cells ! 4) ml)"
    using assms(1) by (simp add: normalize_row_def Let_def cells_def)
  then have "\<exists>c0. c = sanitize_cell c0 \<and> set c0 \<subseteq> insert 46 (\<Union> (set ` set r))"
  proof (elim disjE)
    assume "c = sanitize_cell (cells ! 0)" then show ?thesis using s0 by (rule_tac x = "cells ! 0" in exI) simp
  next
    assume "c = sanitize_cell (cells ! 1)" then show ?thesis using s1 by (rule_tac x = "cells ! 1" in exI) simp
  next
    assume "c = sanitize_cell (cells ! 2)" then show ?thesis using s2 by (rule_tac x = "cells ! 2" in exI) simp
  next
    assume "c = sanitize_cell (cells ! 3)" then show ?thesis using s3 by (rule_tac x = "cells ! 3" in exI) simp
  next
    assume "c = sanitize_cell (truncate_text (cells ! 4) ml)"
    then show ?thesis using t by (rule_tac x = "truncate_text (cells ! 4) ml" in exI) simp
  qed
  then obtain c0 where c: "c = sanitize_cell c0" and c0: "set c0 \<subseteq> insert 46 (\<Union> (set ` set r))"
    by blast
  have "x \<in> (set c0 - {10, 124}) \<union> {0xFF0F, 32}"
    using set_sanitize_cell[of c0] assms(2) c by blast
  then show ?thesis using c0 by auto
qed

lemma merged_rows_origin:
  "r \<in> set (merged_rows fnew ex mt ml) \<Longrightarrow> \<exists>r0 \<in> set fnew \<union> set ex. r = normalize_row ml r0"
  using set_mono_prefix[OF merged_rows_prefix[of fnew ex mt ml]] by auto

lemma existing_rows_printable:
  assumes "r \<in> set (existing_rows lower b ek pe)"
  shows "printable_row r" and "\<forall>c \<in> set r. set c \<subseteq> set b"
proof -
  have r: "r \<in> set (parse_markdown_rows b)" using assms existing_rows_subset by blast
  show "printable_row r" by (rule parse_markdown_rows_printable(1)[OF r])
  show "\<forall>c \<in> set r. set c \<subseteq> set b" by (rule parse_markdown_rows_printable(2)[OF r])
qed

lemma merge_table_origin:
  assumes "merge_table lower b new mt ml ek pe = Inr (rows, n)" and "r \<in> set rows"
  shows "\<exists>r0 \<in> set new \<union> set (existing_rows lower b ek pe). r = normalize_row ml r0"
proof -
  from merge_table_rows[OF assms(1)] obtain fnew where
    f0: "fnew = filter (\<lambda>r. \<not> (link_url r \<noteq> [] \<and> link_url r \<in> link_url ` set (existing_rows lower b ek pe))) new"
    and r: "rows = merged_rows fnew (existing_rows lower b ek pe) mt ml"
    by blast
  have f: "set fnew \<subseteq> set new" unfolding f0 by (rule filter_is_subset)
  from merged_rows_origin[OF assms(2)[unfolded r]] f show ?thesis by blast
qed

lemma merge_table_chars:
  assumes "merge_table lower b new mt ml ek pe = Inr (rows, n)"
    and "r \<in> set rows" and "c \<in> set r" and "x \<in> set c"
  shows "x \<in> {0xFF0F, 32, 46} \<or> x \<in> set b
    \<or> (x \<noteq> 10 \<and> (\<exists>r0 \<in> set new. \<exists>c0 \<in> set r0. x \<in> set c0))"
proof -
  from merge_table_origin[OF assms(1,2)] obtain r0 where
    r0: "r0 \<in> set new \<union> set (existing_rows lower b ek pe)" and r: "r = normalize_row ml r0"
    by blast
  from normalize_row_chars[OF assms(3)[unfolded r] assms(4)]
  consider "x \<in> {0xFF0F, 32, 46}" | c' where "x \<noteq> 10" "c' \<in> set r0" "x \<in> set c'" by blast
  then show ?thesis
  proof cases
    case 1
    then show ?thesis by blast
  next
    case 2
    show ?thesis
    proof (cases "r0 \<in> set new")
      case True
      then show ?thesis using 2 by blast
    next
      case False
      then have "r0 \<in> set (existing_rows lower b ek pe)" using r0 by blast
      from existing_rows_printable(2)[OF this] 2 show ?thesis by blast
    qed
  qed
qed

lemma splice_chars:
  assumes "merge_table lower (block_of content s e) new mt ml ek pe = Inr (rows, n)"
    and "x \<in> set (splice content s e rows)"
  shows "x \<in> set content \<or> x \<in> fixed_chars \<union> {0xFF0F, 46}
    \<or> (x \<noteq> 10 \<and> (\<exists>r0 \<in> set new. \<exists>c0 \<in> set r0. x \<in> set c0))"
proof -
  from set_splice[of content s e rows] assms(2)
  consider "x \<in> set content" | "x \<in> fixed_chars" | r c where "r \<in> set rows" "c \<in> set r" "x \<in> set c"
    by blast
  then show ?thesis
  proof cases
    case 3
    from merge_table_chars[OF assms(1) 3] set_block_of[of content s e]
    show ?thesis by (auto simp: fixed_chars_def)
  qed blast+
qed

lemma splice_plain:
  assumes "read_text fs p = Inr content"
    and "merge_table lower (block_of content s e) new mt ml ek pe = Inr (rows, n)"
    and "\<forall>r \<in> set new. \<forall>c \<in> set r. \<forall>x \<in> set c. (is_linebreak x \<longrightarrow> x = 10) \<and> \<not> is_surrogate x"
  shows "\<not> list_ex is_surrogate (splice content s e rows)"
    and "13 \<notin> set (splice content s e rows)"
proof -
  have "x \<noteq> 13 \<and> \<not> is_surrogate x" if x: "x \<in> set (splice content s e rows)" for x
  proof -
    from splice_chars[OF assms(2) x]
    consider "x \<in> set content" | "x \<in> fixed_chars" | "x = 0xFF0F \<or> x = 46"
      | r0 c0 where "r0 \<in> set new" "c0 \<in> set r0" "x \<in> set c0" by blast
    then show ?thesis
    proof cases
      case 1
      then show ?thesis using read_text_Inr[OF assms(1)] by (auto simp: list_ex_iff)
    next
      case 2
      then show ?thesis by (rule fixed_chars_plain)
    next
      case 3
      then show ?thesis by (auto simp: is_surrogate_def)
    next
      case 4
      then have "(is_linebreak x \<longrightarrow> x = 10) \<and> \<not> is_surrogate x" using assms(3) by blast
      then show ?thesis by (auto simp: is_linebreak_def)
    qed
  qed
  then show "\<not> list_ex is_surrogate (splice content s e rows)"
    and "13 \<notin> set (splice content s e rows)"
    by (auto simp: list_ex_iff)
qed

lemma normalize_printable:
  assumes "3 < length r"
    and "\<forall>c \<in> set r. \<forall>x \<in> set c. is_linebreak x \<longrightarrow> x = 10"
    and "\<not> (sanitize_cell (r ! 0) = HDR_CATEGORY \<and> sanitize_cell (r ! 1) = HDR_DEVELOPER)"
  shows "printable_row (normalize_row ml r)"
proof -
  have "\<not> is_linebreak x" if "c \<in> set (normalize_row ml r)" and "x \<in> set c" for c x
    using normalize_row_chars[OF that] assms(2) by (auto simp: is_linebreak_def)
  moreover have "normalize_row ml r ! 0 = sanitize_cell (r ! 0)"
    and "normalize_row ml r ! 1 = sanitize_cell (r ! 1)"
    using assms(1) by (auto simp: normalize_row_def Let_def nth_append)
  ultimately show ?thesis using assms(3) good_normalize_row[of ml r]
    by (simp add: printable_row_def)
qed

lemma normalize_printable_row:
  assumes "printable_row r"
  shows "printable_row (normalize_row ml r)"
proof (rule normalize_printable)
  have g: "good_row r" using assms by (simp add: printable_row_def)
  then show "3 < length r" by (simp add: good_row_def)
  show "\<forall>c \<in> set r. \<forall>x \<in> set c. is_linebreak x \<longrightarrow> x = 10"
    using assms by (simp add: printable_row_def)
  have "sanitize_cell (r ! 0) = r ! 0" "sanitize_cell (r ! 1) = r ! 1"
    using good_row_cell[OF g] by simp_all
  then show "\<not> (sanitize_cell (r ! 0) = HDR_CATEGORY \<and> sanitize_cell (r ! 1) = HDR_DEVELOPER)"
    using assms by (simp add: printable_row_def)
qed

subsection \<open>A second run on the written document\<close>

lemma merge_again_rows:
  assumes "merge_table lower block new_rows mt ml ek pe = Inr (rows, n)"
    and "mt = 0 \<or> int (n + length (existing_rows lower block ek pe)) \<le> mt"
    and "\<forall>r \<in> set new_rows. link_url r \<noteq> [] \<and> sanitize_cell (r ! 3) = r ! 3"
    and "ml \<le> 0 \<or> 3 \<le> ml"
  shows "\<exists>U. existing_urls rows = Inr U \<and> filtered_new U new_rows = Inr []
            \<and> merged_rows [] rows mt ml = rows"
proof -
  define ex where "ex = existing_rows lower block ek pe"
  from merge_table_rows[OF assms(1)] obtain fnew where
    len: "\<forall>r \<in> set new_rows. 3 < length r"
    and f: "fnew = filter (\<lambda>r. \<not> (link_url r \<noteq> [] \<and> link_url r \<in> link_url ` set ex)) new_rows"
    and r: "rows = merged_rows fnew ex mt ml" and n: "n = length fnew"
    unfolding ex_def by blast
  have g: "\<forall>r \<in> set ex. good_row r" using existing_rows_good by (auto simp: ex_def)
  have rows: "rows = map (normalize_row ml) (fnew @ ex)"
    using assms(2) by (simp add: r n ex_def merged_rows_untruncated)
  have gr: "\<forall>r \<in> set rows. good_row r" by (auto simp: rows good_normalize_row)
  define U where "U = set (filter (\<lambda>u. u \<noteq> []) (map link_url rows))"
  have e: "existing_urls rows = Inr U" by (simp add: U_def existing_urls_good[OF gr])
  have inU: "link_url x \<noteq> [] \<and> link_url x \<in> U" if x: "x \<in> set new_rows" for x
  proof (cases "x \<in> set fnew")
    case True
    then have "normalize_row ml x \<in> set rows" by (simp add: rows)
    moreover have "link_url (normalize_row ml x) = link_url x"
      using len assms(3) x by (simp add: link_url_normalize)
    ultimately have "link_url x \<in> link_url ` set rows" by (metis imageI)
    then show ?thesis using assms(3) x by (simp add: U_def)
  next
    case False
    then obtain y where y: "y \<in> set ex" "link_url x = link_url y" using x by (auto simp: f)
    then have "normalize_row ml y \<in> set rows" by (simp add: rows)
    moreover have "link_url (normalize_row ml y) = link_url x"
      using g y by (simp add: link_url_normalize_good)
    ultimately have "link_url x \<in> link_url ` set rows" by (metis imageI)
    then show ?thesis using assms(3) x by (simp add: U_def)
  qed
  have "filter (\<lambda>r. \<not> (link_url r \<noteq> [] \<and> link_url r \<in> U)) new_rows = []"
    using inU by (simp add: filter_empty_conv)
  then have f3: "filtered_new U new_rows = Inr []" by (simp add: filtered_new_filter[OF len])
  have "length rows = n + length ex" by (simp add: rows n)
  then have "merged_rows [] rows mt ml = map (normalize_row ml) rows"
    using assms(2) by (simp add: merged_rows_untruncated ex_def)
  also have "\<dots> = rows" by (simp add: rows normalize_row_idem[OF assms(4)])
  finally have f4: "merged_rows [] rows mt ml = rows" .
  show ?thesis using e f3 f4 by blast
qed

lemma merge_table_printable:
  assumes "merge_table lower b new mt ml ek pe = Inr (rows, n)"
    and "\<forall>r \<in> set new. printable_new_row r"
  shows "\<forall>r \<in> set rows. printable_row r"
proof
  fix r assume "r \<in> set rows"
  from merge_table_origin[OF assms(1) this] obtain r0 where
    r0: "r0 \<in> set new \<union> set (existing_rows lower b ek pe)" and r: "r = normalize_row ml r0"
    by blast
  from merge_table_rows[OF assms(1)] have len: "\<forall>r \<in> set new. 3 < length r" by blast
  show "printable_row r"
  proof (cases "r0 \<in> set new")
    case True
    then have p: "printable_new_row r0" and l: "3 < length r0" using assms(2) len by blast+
    have "\<forall>c \<in> set r0. \<forall>x \<in> set c. is_linebreak x \<longrightarrow> x = 10"
      using p by (simp add: printable_new_row_def)
    moreover have "\<not> (sanitize_cell (r0 ! 0) = HDR_CATEGORY \<and> sanitize_cell (r0 ! 1) = HDR_DEVELOPER)"
      using p by (simp add: printable_new_row_def)
    ultimately show ?thesis unfolding r using l by (intro normalize_printable)
  next
    case False
    then have "r0 \<in> set (existing_rows lower b ek pe)" using r0 by blast
    then have "printable_row r0" by (rule existing_rows_printable(1))
    then show ?thesis unfolding r by (rule normalize_printable_row)
  qed
qed

lemma update_readme_again:
  assumes rd: "read_text fs p = Inr content"
    and st: "sublist AUTO_START content" and en: "sublist AUTO_END content"
    and ord: "py_find content AUTO_START \<le> py_find content AUTO_END"
    and m: "merge_table lower (block_of content (py_find content AUTO_START) (py_find content AUTO_END))
          new mt ml ek pe = Inr (rows, n)"
    and nocut: "mt = 0 \<or> int (n + length (parse_markdown_rows
          (block_of content (py_find content AUTO_START) (py_find content AUTO_END)))) \<le> mt"
    and noprune: "\<not> pe \<or> ek = []"
    and mlok: "ml \<le> 0 \<or> 3 \<le> ml"
    and pr: "\<forall>r \<in> set new. printable_new_row r"
    and noend: "\<not> sublist AUTO_END (build_table_text rows)"
  shows "update_readme lower fs p new mt ml ek pe
      = (Inr (int n), fs(p \<mapsto> splice content (py_find content AUTO_START) (py_find content AUTO_END) rows))"
    and "update_readme lower
          (fs(p \<mapsto> splice content (py_find content AUTO_START) (py_find content AUTO_END) rows))
          p new mt ml ek pe
      = (Inr 0, fs(p \<mapsto> splice content (py_find content AUTO_START) (py_find content AUTO_END) rows))"
proof -
  define b where "b = block_of content (py_find content AUTO_START) (py_find content AUTO_END)"
  define c1 where "c1 = splice content (py_find content AUTO_START) (py_find content AUTO_END) rows"
  define t where "t = build_table_text rows"
  have ex: "existing_rows lower bb ek pe = parse_markdown_rows bb" for bb
    using noprune by (auto simp: existing_rows_def)
  obtain s where s: "find_index AUTO_START content = Some s" "py_find content AUTO_START = int s"
    using st py_find_nonneg[of content AUTO_START] by (simp add: py_find_minus_one) (metis int_nat_eq)
  obtain e where e: "find_index AUTO_END content = Some e" "py_find content AUTO_END = int e"
    using en py_find_nonneg[of content AUTO_END] by (simp add: py_find_minus_one) (metis int_nat_eq)
  have se: "s \<le> e" using ord s(2) e(2) by simp
  have lb: "\<forall>r \<in> set new. \<forall>c \<in> set r. \<forall>x \<in> set c. (is_linebreak x \<longrightarrow> x = 10) \<and> \<not> is_surrogate x"
    using pr by (simp add: printable_new_row_def)
  have enc: "\<not> list_ex is_surrogate c1" and ncr: "13 \<notin> set c1"
    unfolding c1_def by (rule splice_plain[OF rd m lb])+
  show run1: "update_readme lower fs p new mt ml ek pe
      = (Inr (int n), fs(p \<mapsto> splice content (py_find content AUTO_START) (py_find content AUTO_END) rows))"
    using update_readme_run[OF rd st en ord m] enc by (simp add: c1_def)
  have rd1: "read_text (fs(p \<mapsto> c1)) p = Inr c1"
    by (rule read_text_plain[OF _ enc ncr]) simp
  note again = spliced_again[OF s(1) e(1) se noend]
  have f1: "py_find c1 AUTO_START = int s"
    and f2: "py_find c1 AUTO_END = int (s + 31 + length (build_table_text rows))"
    using again(1,2) by (simp_all add: c1_def s(2) e(2))
  have b1: "block_of c1 (py_find c1 AUTO_START) (py_find c1 AUTO_END) = [10] @ build_table_text rows @ [10]"
    unfolding f1 f2 using again(3) by (simp add: c1_def s(2) e(2))
  have s1: "splice c1 (py_find c1 AUTO_START) (py_find c1 AUTO_END) rows = c1"
    unfolding f1 f2 using again(4)[of rows] by (simp add: c1_def s(2) e(2))
  have st1: "sublist AUTO_START c1" using f1 py_find_minus_one[of c1 AUTO_START] by auto
  have en1: "sublist AUTO_END c1" using f2 py_find_minus_one[of c1 AUTO_END] by auto
  have ord1: "py_find c1 AUTO_START \<le> py_find c1 AUTO_END" by (simp add: f1 f2)
  have prows: "\<forall>r \<in> set rows. printable_row r" by (rule merge_table_printable[OF m pr])
  have parse: "parse_markdown_rows ([10] @ build_table_text rows @ [10]) = rows"
    by (rule parse_build_table_text[OF prows])
  have url: "\<forall>r \<in> set new. link_url r \<noteq> [] \<and> sanitize_cell (r ! 3) = r ! 3"
    using pr by (simp add: printable_new_row_def)
  have nocut': "mt = 0 \<or> int (n + length (existing_rows lower
        (block_of content (py_find content AUTO_START) (py_find content AUTO_END)) ek pe)) \<le> mt"
    using nocut by (simp only: ex)
  from merge_again_rows[OF m nocut' url mlok] obtain U where
    U: "existing_urls rows = Inr U" "filtered_new U new = Inr []" "merged_rows [] rows mt ml = rows"
    by blast
  have m1: "merge_table lower (block_of c1 (py_find c1 AUTO_START) (py_find c1 AUTO_END))
      new mt ml ek pe = Inr (rows, 0)"
    by (simp add: b1 merge_table_def Let_def ex parse U del: append.simps)
  have "update_readme lower (fs(p \<mapsto> c1)) p new mt ml ek pe = (Inr 0, (fs(p \<mapsto> c1))(p \<mapsto> c1))"
    using update_readme_run[OF rd1 st1 en1 ord1 m1] enc by (simp add: s1)
  then show "update_readme lower
          (fs(p \<mapsto> splice content (py_find content AUTO_START) (py_find content AUTO_END) rows))
          p new mt ml ek pe
      = (Inr 0, fs(p \<mapsto> splice content (py_find content AUTO_START) (py_find content AUTO_END) rows))"
    by (simp add: c1_def)
qed

subsection \<open>Evaluation of the examples\<close>

lemma ex_build_candidates:
  "build_candidates ascii_lower ex_parse_time ex_fetch ex_config
     (7 - pushed_within_days ex_config * microseconds_per_day) [ex_repo, ex_repo2] Map.empty
     = Inr [ex_cand_foo, ex_cand_bar]"
  by (simp add: build_candidate_def is_excluded_repo_def fetch_user_location_def
      make_row_def classify_category_def haystack_of_def keyword_hit_def truncate_text_def
      sanitize_cell_def ex_config_def ex_repo_def ex_repo2_def ex_fetch_def ex_parse_time_def
      ex_cand_foo_def ex_cand_bar_def ex_row_foo_def ex_row_bar_def ascii_lower_def or_empty_def
      microseconds_per_day_def Let_def str_ev)

lemma ex_sort_candidates:
  "sort_candidates True [ex_cand_foo, ex_cand_bar] = [ex_cand_bar, ex_cand_foo]"
  by (simp add: sort_candidates_def sort_desc_def key_homepage_def ex_cand_foo_def ex_cand_bar_def)

lemma ex_build_table_rows:
  "build_table_rows ascii_lower ex_parse_time ex_fetch 7 [ex_repo, ex_repo2] ex_config
     = Inr [ex_row_bar, ex_row_foo]"
proof -
  have "prefer_homepage ex_config = True" "max_new_per_run ex_config = 50"
    by (simp_all add: ex_config_def)
  then show ?thesis
    unfolding build_table_rows_def Let_def ex_build_candidates
    by (simp add: ex_sort_candidates slice_to_def) (simp add: ex_cand_foo_def ex_cand_bar_def)
qed

lemma ex_parse_block: "parse_markdown_rows ex_block = [ex_row_foo]"
  by (simp add: ex_block_def ex_block_of_def ex_row_foo_def table_ev Let_def str_ev)

lemmas doc_ev = ex_doc_of_def build_table_text_def render_row_def TABLE_HEADER_def
  TABLE_DIVIDER_def HDR_CATEGORY_def HDR_DEVELOPER_def AUTO_START_def AUTO_END_def ascii_def

lemma ex_find_markers: "py_find ex_doc AUTO_START = 4 \<and> py_find ex_doc AUTO_END = 155"
  by (simp add: ex_doc_def ex_row_foo_def py_find_def doc_ev)

lemma ex_doc_block: "block_of ex_doc 4 155 = ex_block"
  by (simp add: block_of_def ex_doc_def ex_block_def ex_block_of_def ex_row_foo_def doc_ev)

lemma ex_splice: "splice ex_doc 4 155 rows = ex_doc_of rows"
  by (simp add: splice_def ex_doc_def ex_row_foo_def doc_ev)

lemma ex_doc_plain: "\<not> list_ex is_surrogate ex_doc" "13 \<notin> set ex_doc"
  by (simp_all add: ex_doc_def ex_row_foo_def doc_ev is_surrogate_def)

lemma ex_read_text: "read_text [0::nat \<mapsto> ex_doc] 0 = Inr ex_doc"
  by (rule read_text_plain) (simp_all add: ex_doc_plain)

lemma ex_update_readme:
  "merge_table ascii_lower ex_block new mt ml ek pe = Inr (rows, n)
     \<Longrightarrow> \<not> list_ex is_surrogate (ex_doc_of rows)
     \<Longrightarrow> update_readme ascii_lower [0::nat \<mapsto> ex_doc] 0 new mt ml ek pe
           = (Inr (int n), [0 \<mapsto> ex_doc_of rows])"
  by (simp add: update_readme_def ex_read_text ex_find_markers ex_doc_block ex_splice
      write_text_def)

lemma ex_parse_block_bar: "parse_markdown_rows (ex_block_of [ex_row_bar]) = [ex_row_bar]"
  by (simp add: ex_block_of_def ex_row_bar_def table_ev Let_def str_ev)

lemma ex_parse_block_foo_bar:
  "parse_markdown_rows (ex_block_of [ex_row_foo, ex_row_bar]) = [ex_row_foo, ex_row_bar]"
  by (simp add: ex_block_of_def ex_row_foo_def ex_row_bar_def table_ev Let_def str_ev)

lemma ex_parse_block_nourl: "parse_markdown_rows (ex_block_of [ex_row_nourl]) = [ex_row_nourl]"
  by (simp add: ex_block_of_def ex_row_nourl_def table_ev Let_def str_ev)

lemma ex_find_markers_bar:
  "py_find (ex_doc_of [ex_row_bar]) AUTO_START = 4 \<and> py_find (ex_doc_of [ex_row_bar]) AUTO_END = 143"
  by (simp add: ex_row_bar_def py_find_def doc_ev)

lemma ex_find_markers_foo_bar:
  "py_find (ex_doc_of [ex_row_foo, ex_row_bar]) AUTO_START = 4
   \<and> py_find (ex_doc_of [ex_row_foo, ex_row_bar]) AUTO_END = 212"
  by (simp add: ex_row_foo_def ex_row_bar_def py_find_def doc_ev)

lemma ex_update_readme_bar:
  "merge_table ascii_lower (ex_block_of [ex_row_bar]) new mt ml ek pe = Inr (rows, n)
     \<Longrightarrow> \<not> list_ex is_surrogate (ex_doc_of rows)
     \<Longrightarrow> update_readme ascii_lower [0::nat \<mapsto> ex_doc_of [ex_row_bar]] 0 new mt ml ek pe
           = (Inr (int n), [0 \<mapsto> ex_doc_of rows])"
proof -
  have b: "block_of (ex_doc_of [ex_row_bar]) 4 143 = ex_block_of [ex_row_bar]"
    by (simp add: block_of_def ex_block_of_def ex_row_bar_def doc_ev)
  have s: "splice (ex_doc_of [ex_row_bar]) 4 143 rows = ex_doc_of rows"
    by (simp add: splice_def ex_row_bar_def doc_ev)
  have r: "read_text [0::nat \<mapsto> ex_doc_of [ex_row_bar]] 0 = Inr (ex_doc_of [ex_row_bar])"
    by (rule read_text_plain) (simp_all add: ex_row_bar_def doc_ev is_surrogate_def)
  assume "merge_table ascii_lower (ex_block_of [ex_row_bar]) new mt ml ek pe = Inr (rows, n)"
    and "\<not> list_ex is_surrogate (ex_doc_of rows)"
  then show ?thesis
    by (simp add: update_readme_def r ex_find_markers_bar b s write_text_def)
qed

lemma ex_update_readme_foo_bar:
  "merge_table ascii_lower (ex_block_of [ex_row_foo, ex_row_bar]) new mt ml ek pe = Inr (rows, n)
     \<Longrightarrow> \<not> list_ex is_surrogate (ex_doc_of rows)
     \<Longrightarrow> update_readme ascii_lower [0::nat \<mapsto> ex_doc_of [ex_row_foo, ex_row_bar]] 0 new mt ml ek pe
           = (Inr (int n), [0 \<mapsto> ex_doc_of rows])"
proof -
  have b: "block_of (ex_doc_of [ex_row_foo, ex_row_bar]) 4 212 = ex_block_of [ex_row_foo, ex_row_bar]"
    by (simp add: block_of_def ex_block_of_def ex_row_foo_def ex_row_bar_def doc_ev)
  have s: "splice (ex_doc_of [ex_row_foo, ex_row_bar]) 4 212 rows = ex_doc_of rows"
    by (simp add: splice_def ex_row_foo_def ex_row_bar_def doc_ev)
  have r: "read_text [0::nat \<mapsto> ex_doc_of [ex_row_foo, ex_row_bar]] 0
      = Inr (ex_doc_of [ex_row_foo, ex_row_bar])"
    by (rule read_text_plain) (simp_all add: ex_row_foo_def ex_row_bar_def doc_ev is_surrogate_def)
  assume "merge_table ascii_lower (ex_block_of [ex_row_foo, ex_row_bar]) new mt ml ek pe = Inr (rows, n)"
    and "\<not> list_ex is_surrogate (ex_doc_of rows)"
  then show ?thesis
    by (simp add: update_readme_def r ex_find_markers_foo_bar b s write_text_def)
qed

lemmas row_ev = ex_row_foo_def ex_row_bar_def ex_row_bar2_def ex_row_qux_def ex_row_nourl_def

lemma ex_merge_two_new:
  "merge_table ascii_lower ex_block [ex_row_bar, ex_row_qux] 0 0 [] False
     = Inr ([ex_row_bar, ex_row_qux, ex_row_foo], 2)"
  by (simp add: merge_ev ex_parse_block Let_def row_ev str_ev)

lemma ex_merge_two_new_cut:
  "merge_table ascii_lower ex_block [ex_row_bar, ex_row_qux] 1 0 [] False = Inr ([ex_row_bar], 2)"
  by (simp add: merge_ev ex_parse_block Let_def row_ev str_ev)

lemma ex_merge_second_run:
  "merge_table ascii_lower (ex_block_of [ex_row_bar]) [ex_row_bar, ex_row_qux] 1 0 [] False
     = Inr ([ex_row_qux], 1)"
  by (simp add: merge_table_def existing_rows_def ex_parse_block_bar)
     (simp add: merge_ev Let_def row_ev str_ev)

lemma ex_merge_same_url:
  "merge_table ascii_lower ex_block [ex_row_bar, ex_row_bar2] 0 0 [] False
     = Inr ([ex_row_bar, ex_row_bar2, ex_row_foo], 2)"
  by (simp add: merge_ev ex_parse_block Let_def row_ev str_ev)

lemma ex_merge_nourl_cut:
  "merge_table ascii_lower ex_block [ex_row_bar, ex_row_nourl] 1 0 [] False = Inr ([ex_row_bar], 2)"
  by (simp add: merge_ev ex_parse_block Let_def row_ev str_ev)

lemma ex_merge_nourl_again:
  "merge_table ascii_lower (ex_block_of [ex_row_nourl]) [ex_row_nourl] 0 0 [] False
     = Inr ([ex_row_nourl, ex_row_nourl], 1)"
  by (simp add: merge_table_def existing_rows_def ex_parse_block_nourl)
     (simp add: merge_ev Let_def row_ev str_ev)

lemma ex_merge_no_new_cut:
  "merge_table ascii_lower (ex_block_of [ex_row_foo, ex_row_bar]) [] 1 0 [] False
     = Inr ([ex_row_foo], 0)"
  by (simp add: merge_table_def existing_rows_def ex_parse_block_foo_bar)
     (simp add: merge_ev Let_def row_ev str_ev)

lemma ex_merge_no_new:
  "merge_table ascii_lower ex_block [] 0 0 [] False = Inr ([ex_row_foo], 0)"
  by (simp add: merge_ev ex_parse_block Let_def row_ev str_ev)

lemma ex_link_urls:
  "link_url ex_row_foo = ascii ''https://x.com/a/foo''"
  "link_url ex_row_bar = ascii ''https://x.com/a/bar''"
  "link_url ex_row_bar2 = ascii ''https://x.com/a/bar''"
  "link_url ex_row_qux = ascii ''https://x.com/a/qux''"
  "link_url ex_row_nourl = []"
  by (simp_all add: link_url_def extract_url_def match_url_def row_ev Let_def ascii_def)

lemma ex_docs_plain:
  "\<not> list_ex is_surrogate (ex_doc_of [ex_row_foo])"
  "\<not> list_ex is_surrogate (ex_doc_of [ex_row_bar])"
  "\<not> list_ex is_surrogate (ex_doc_of [ex_row_qux])"
  "\<not> list_ex is_surrogate (ex_doc_of [ex_row_bar, ex_row_bar2, ex_row_foo])"
  "\<not> list_ex is_surrogate (ex_doc_of [ex_row_bar, ex_row_qux, ex_row_foo])"
  by (simp_all add: row_ev doc_ev is_surrogate_def)

lemma ex_rows_printable_new: "\<forall>r \<in> set [ex_row_bar, ex_row_qux]. printable_new_row r"
  by (simp add: printable_new_row_def ex_link_urls)
     (simp add: row_ev sanitize_cell_def str_ev is_surrogate_def HDR_CATEGORY_def
        HDR_DEVELOPER_def)

lemma not_sublist_char: "x \<in> set sub \<Longrightarrow> x \<notin> set t \<Longrightarrow> \<not> sublist sub t"
  using set_mono_sublist by blast

lemma ex_table_no_end: "\<not> sublist AUTO_END (build_table_text [ex_row_bar, ex_row_qux, ex_row_foo])"
proof (rule not_sublist_char)
  show "60 \<in> set AUTO_END" by (simp add: AUTO_END_def ascii_def)
  show "60 \<notin> set (build_table_text [ex_row_bar, ex_row_qux, ex_row_foo])"
    by (simp add: row_ev doc_ev)
qed

lemma ex_merge_collide:
  "merge_table ascii_lower ex_block [ex_row_foo, ex_row_bar] 0 0 [] False
     = Inr ([ex_row_bar, ex_row_foo], 1)"
  by (simp add: merge_ev ex_parse_block Let_def row_ev str_ev)

section \<open>The claims\<close>

text \<open>
  C8. \<open>truncate_text(s, 0)\<close> is \<open>s\<close>, and for \<open>max_len > 0\<close> and a longer \<open>s\<close> the
  result is at most \<open>max_len - 3\<close> characters of \<open>s\<close>, right-trimmed, followed by
  three dots, and has at most \<open>max_len\<close> characters. For \<open>max_len\<close> 1 or 2 the slice bound
  \<open>max_len - 3\<close> is negative and counts from the end of the text: of \<open>hello\<close> with limit
  2 the code keeps four characters and returns seven.
\<close>

theorem truncate_text_short_limit:
  "truncate_text (ascii ''hello'') 2 = ascii ''hell...''
   \<and> int (length (truncate_text (ascii ''hello'') 2)) > 2"
  by (simp add: truncate_text_def ascii_def slice_to_def rstrip_def isspace_def)

text \<open>
  C9. \<open>sanitize_cell\<close> returns a string without pipe (124) and without newline (10);
  so does every cell of every row of \<open>build_table_rows\<close>, of \<open>normalize_row\<close> and of the
  rows \<open>update_readme\<close> merges; and the text \<open>a|b\nc\<close> becomes \<open>a\<close>, the full-width
  solidus, \<open>b c\<close>.
\<close>

theorem sanitize_cell_no_pipe_no_newline:
  "(124 \<notin> set (sanitize_cell s) \<and> 10 \<notin> set (sanitize_cell s))
   \<and> (build_table_rows lower parse fetch now repos cfg = Inr rows
        \<longrightarrow> (\<forall>r \<in> set rows. \<forall>c \<in> set r. 124 \<notin> set c \<and> 10 \<notin> set c))
   \<and> (\<forall>c \<in> set (normalize_row ml r0). 124 \<notin> set c \<and> 10 \<notin> set c)
   \<and> (merge_table lower block new mt ml ek pe = Inr (rows', n)
        \<longrightarrow> (\<forall>r \<in> set rows'. \<forall>c \<in> set r. 124 \<notin> set c \<and> 10 \<notin> set c))
   \<and> sanitize_cell (ascii ''a|b'' @ [10] @ ascii ''c'') = ascii ''a'' @ [0xFF0F] @ ascii ''b c''"
proof -
  have 1: "124 \<notin> set (sanitize_cell s) \<and> 10 \<notin> set (sanitize_cell s)"
    using sanitize_cell_clean[of s] by (simp add: clean_cell_def)
  have 2: "build_table_rows lower parse fetch now repos cfg = Inr rows
        \<longrightarrow> (\<forall>r \<in> set rows. \<forall>c \<in> set r. 124 \<notin> set c \<and> 10 \<notin> set c)"
    using build_table_rows_cells[of lower parse fetch now repos cfg rows]
    by (simp add: clean_cell_def)
  have 3: "\<forall>c \<in> set (normalize_row ml r0). 124 \<notin> set c \<and> 10 \<notin> set c"
    using normalize_row_cells[of ml r0] by (simp add: clean_cell_def)
  have 4: "merge_table lower block new mt ml ek pe = Inr (rows', n)
        \<longrightarrow> (\<forall>r \<in> set rows'. \<forall>c \<in> set r. 124 \<notin> set c \<and> 10 \<notin> set c)"
  proof
    assume "merge_table lower block new mt ml ek pe = Inr (rows', n)"
    then obtain fnew where "rows' = merged_rows fnew (existing_rows lower block ek pe) mt ml"
      using merge_table_Inr by blast
    then show "\<forall>r \<in> set rows'. \<forall>c \<in> set r. 124 \<notin> set c \<and> 10 \<notin> set c"
      using merged_rows_cells by (auto simp: clean_cell_def)
  qed
  have 5: "sanitize_cell (ascii ''a|b'' @ [10] @ ascii ''c'') = ascii ''a'' @ [0xFF0F] @ ascii ''b c''"
    by (simp add: sanitize_cell_def ascii_def strip_def strip_chars_def replace_char_def isspace_def)
  show ?thesis using 1 2 3 4 5 by blast
qed

theorem sanitize_cell_no_pipe_no_newline_witness:
  "build_table_rows ascii_lower ex_parse_time ex_fetch 7 [ex_repo, ex_repo2] ex_config
     = Inr [ex_row_bar, ex_row_foo]
   \<and> list_all (list_all (\<lambda>c. 124 \<notin> set c \<and> 10 \<notin> set c)) [ex_row_bar, ex_row_foo]
   \<and> merge_table ascii_lower ex_block [ex_row_bar] 0 0 [] False = Inr ([ex_row_bar, ex_row_foo], 1)
   \<and> list_all (list_all (\<lambda>c. 124 \<notin> set c \<and> 10 \<notin> set c)) [ex_row_bar, ex_row_foo]"
proof -
  have b: "build_table_rows ascii_lower ex_parse_time ex_fetch 7 [ex_repo, ex_repo2] ex_config
             = Inr [ex_row_bar, ex_row_foo]"
    by (rule ex_build_table_rows)
  have m: "merge_table ascii_lower ex_block [ex_row_bar] 0 0 [] False
             = Inr ([ex_row_bar, ex_row_foo], 1)"
    by (simp add: merge_ev ex_parse_block Let_def ex_row_bar_def ex_row_foo_def str_ev)
  show ?thesis
    using b m
      sanitize_cell_no_pipe_no_newline [where lower = ascii_lower and parse = ex_parse_time
        and fetch = ex_fetch and now = 7 and repos = "[ex_repo, ex_repo2]"
        and cfg = ex_config and rows = "[ex_row_bar, ex_row_foo]" and block = ex_block
        and new = "[ex_row_bar]" and mt = 0 and ml = 0 and ek = "[]" and pe = False
        and rows' = "[ex_row_bar, ex_row_foo]" and n = 1]
    by (simp add: list_all_iff)
qed

text \<open>
  C7. \<open>classify_category\<close> is a function of the record, the rules and the default. It
  returns the default when no rule matches, and otherwise what the first matching rule, in
  the order of the list, gives: its name (the default if the rule carries no name). A rule
  matches when one of its keywords, lowered, is a substring of the lowered text of name,
  description and space-joined topics.
\<close>

theorem classify_category_first_match:
  "((\<forall>c \<in> set cats. \<not> rule_matches lower r c) \<longrightarrow> classify_category lower r cats dflt = dflt)
   \<and> (cats = pre @ c # post \<and> (\<forall>c' \<in> set pre. \<not> rule_matches lower r c') \<and> rule_matches lower r c
        \<longrightarrow> classify_category lower r cats dflt = (case cat_name c of None \<Rightarrow> dflt | Some n \<Rightarrow> n))"
  using classify_rules_none[of cats lower "haystack_of lower r" dflt]
        classify_rules_first[of pre lower "haystack_of lower r" c post dflt]
  by (simp add: classify_category_def keyword_hit_rule_matches)

theorem classify_category_first_match_witness:
  "categories ex_config = [hd (categories ex_config)] @ (categories ex_config ! 1) # [categories ex_config ! 2]
   \<and> \<not> rule_matches ascii_lower ex_repo (hd (categories ex_config))
   \<and> rule_matches ascii_lower ex_repo (categories ex_config ! 1)
   \<and> rule_matches ascii_lower ex_repo (categories ex_config ! 2)
   \<and> classify_category ascii_lower ex_repo (categories ex_config) (ascii ''misc'') = ascii ''ai''"
proof -
  have 1: "categories ex_config
      = [hd (categories ex_config)] @ (categories ex_config ! 1) # [categories ex_config ! 2]"
    by (simp add: ex_config_def)
  have 2: "\<forall>c' \<in> set [hd (categories ex_config)]. \<not> rule_matches ascii_lower ex_repo c'"
    by (simp add: ex_config_def ex_repo_def rule_matches_def ascii_lower_def or_empty_def str_ev)
  have 3: "rule_matches ascii_lower ex_repo (categories ex_config ! 1)"
    by (simp add: ex_config_def ex_repo_def rule_matches_def ascii_lower_def or_empty_def str_ev)
  have 4: "rule_matches ascii_lower ex_repo (categories ex_config ! 2)"
    by (simp add: ex_config_def ex_repo_def rule_matches_def ascii_lower_def or_empty_def str_ev)
  have 5: "cat_name (categories ex_config ! 1) = Some (ascii ''ai'')"
    by (simp add: ex_config_def)
  show ?thesis
    using 1 2 3 4 5
      classify_category_first_match [where cats = "categories ex_config" and lower = ascii_lower
        and r = ex_repo and pre = "[hd (categories ex_config)]" and c = "categories ex_config ! 1"
        and post = "[categories ex_config ! 2]" and dflt = "ascii ''misc''"]
    by simp
qed

text \<open>
  C5. When the document read lacks the start marker or the end marker, or the first end
  marker lies before the first start marker, \<open>update_readme\<close> raises RuntimeError before
  any write: the files are as before.
\<close>

theorem update_readme_missing_markers:
  assumes "read_text fs p = Inr content"
    and "\<not> sublist AUTO_START content \<or> \<not> sublist AUTO_END content
           \<or> py_find content AUTO_END < py_find content AUTO_START"
  shows "update_readme lower fs p new mt ml ek pe = (Inl RuntimeError, fs)"
  using assms by (auto simp: update_readme_def Let_def py_find_minus_one)

theorem update_readme_missing_markers_witness:
  "read_text [0::nat \<mapsto> AUTO_END @ AUTO_START] 0 = Inr (AUTO_END @ AUTO_START)
   \<and> py_find (AUTO_END @ AUTO_START) AUTO_END < py_find (AUTO_END @ AUTO_START) AUTO_START
   \<and> update_readme ascii_lower [0::nat \<mapsto> AUTO_END @ AUTO_START] 0 [ex_row_bar] 0 0 [] False
        = (Inl RuntimeError, [0 \<mapsto> AUTO_END @ AUTO_START])"
proof -
  have 0: "read_text [0::nat \<mapsto> AUTO_END @ AUTO_START] 0 = Inr (AUTO_END @ AUTO_START)"
    by (rule read_text_plain) (simp_all add: AUTO_START_def AUTO_END_def ascii_def is_surrogate_def)
  have 1: "py_find (AUTO_END @ AUTO_START) AUTO_END < py_find (AUTO_END @ AUTO_START) AUTO_START"
    by (simp add: py_find_def AUTO_START_def AUTO_END_def ascii_def)
  have 2: "\<not> sublist AUTO_START (AUTO_END @ AUTO_START) \<or> \<not> sublist AUTO_END (AUTO_END @ AUTO_START)
           \<or> py_find (AUTO_END @ AUTO_START) AUTO_END < py_find (AUTO_END @ AUTO_START) AUTO_START"
    using 1 by simp
  show ?thesis
    using 0 1 update_readme_missing_markers [OF 0 2, of ascii_lower "[ex_row_bar]" 0 0 "[]" False]
    by simp
qed

text \<open>
  C2. When \<open>max_total > 0\<close>, the merged rows are at most \<open>max_total\<close>, and they are the
  first \<open>max_total\<close> of the normalized rows, the new rows that passed the filter first
  and the existing rows after them.
\<close>

theorem merge_table_bounded:
  assumes "0 < max_total"
    and "merge_table lower block new_rows max_total ml ek pe = Inr (rows, n)"
  shows "int (length rows) \<le> max_total
     \<and> (\<exists>fnew. filtered_new (set (filter (\<lambda>u. u \<noteq> [])
                    (map (\<lambda>r. extract_url (r ! 3)) (existing_rows lower block ek pe)))) new_rows = Inr fnew
           \<and> n = length fnew
           \<and> rows = take (nat max_total) (map (normalize_row ml) (fnew @ existing_rows lower block ek pe)))"
proof -
  from merge_table_Inr[OF assms(2)] obtain fnew where
    f: "filtered_new (set (filter (\<lambda>u. u \<noteq> []) (map (\<lambda>r. extract_url (r ! 3)) (existing_rows lower block ek pe)))) new_rows = Inr fnew"
    and r: "rows = merged_rows fnew (existing_rows lower block ek pe) max_total ml" and n: "n = length fnew"
    by blast
  have "rows = take (nat max_total) (map (normalize_row ml) (fnew @ existing_rows lower block ek pe))"
    using assms(1) r by (auto simp: merged_rows_def Let_def slice_to_def)
  moreover from this have "int (length rows) \<le> max_total" using assms(1) by simp
  ultimately show ?thesis using f n by blast
qed

theorem merge_table_bounded_witness:
  "(0::int) < 1
   \<and> merge_table ascii_lower ex_block [ex_row_bar] 1 0 [] False = Inr ([ex_row_bar], 1)
   \<and> int (length [ex_row_bar]) \<le> 1
   \<and> [ex_row_bar] = take (nat 1) (map (normalize_row 0)
         ([ex_row_bar] @ existing_rows ascii_lower ex_block [] False))"
proof -
  have m: "merge_table ascii_lower ex_block [ex_row_bar] 1 0 [] False = Inr ([ex_row_bar], 1)"
    by (simp add: merge_ev ex_parse_block Let_def ex_row_bar_def ex_row_foo_def str_ev)
  have n: "[ex_row_bar] = take (nat 1) (map (normalize_row 0)
         ([ex_row_bar] @ existing_rows ascii_lower ex_block [] False))"
    by (simp add: normalize_row_def truncate_text_def sanitize_cell_def ex_row_bar_def str_ev)
  show ?thesis
    using m n merge_table_bounded [where max_total = 1 and lower = ascii_lower
        and block = ex_block and new_rows = "[ex_row_bar]" and ml = 0 and ek = "[]"
        and pe = False and rows = "[ex_row_bar]" and n = 1]
    by simp
qed



text \<open>
  C1. That no two rows of the merged table share an extracted URL does not hold for every
  input: \<open>update_readme\<close> drops only the new rows whose non-empty URL is the URL of an
  existing row. As amended: when the new rows have pairwise different, non-empty URLs in
  link cells that sanitization leaves unchanged, and the rows kept from the existing table
  have pairwise different URLs, no two rows of the merged table share an extracted URL.
\<close>

theorem merged_urls_distinct:
  assumes "merge_table lower block new_rows mt ml ek pe = Inr (rows, n)"
    and "distinct (map link_url new_rows)"
    and "\<forall>r \<in> set new_rows. link_url r \<noteq> [] \<and> sanitize_cell (r ! 3) = r ! 3"
    and "distinct (map link_url (existing_rows lower block ek pe))"
  shows "distinct (map link_url rows)"
proof -
  define ex where "ex = existing_rows lower block ek pe"
  from merge_table_rows[OF assms(1)] obtain fnew where
    len: "\<forall>r \<in> set new_rows. 3 < length r"
    and f: "fnew = filter (\<lambda>r. \<not> (link_url r \<noteq> [] \<and> link_url r \<in> link_url ` set ex)) new_rows"
    and r: "rows = merged_rows fnew ex mt ml"
    unfolding ex_def by blast
  have g: "\<forall>r \<in> set ex. good_row r" using existing_rows_good by (auto simp: ex_def)
  have u1: "\<forall>x \<in> set fnew. link_url (normalize_row ml x) = link_url x"
    using len assms(3) by (auto simp: f link_url_normalize)
  have u2: "\<forall>x \<in> set ex. link_url (normalize_row ml x) = link_url x"
    using g by (auto simp: link_url_normalize_good)
  have u: "map link_url (map (normalize_row ml) (fnew @ ex)) = map link_url (fnew @ ex)"
    using u1 u2 by auto
  have d1: "distinct (map link_url fnew)" using assms(2) by (simp add: f distinct_map_filter)
  have d2: "distinct (map link_url ex)" using assms(4) by (simp add: ex_def)
  have d3: "link_url ` set fnew \<inter> link_url ` set ex = {}"
    using assms(3) by (auto simp: f)
  have "distinct (map link_url (fnew @ ex))" using d1 d2 d3 by simp
  then have "distinct (map link_url (map (normalize_row ml) (fnew @ ex)))" by (simp only: u)
  moreover obtain zs where "map (normalize_row ml) (fnew @ ex) = rows @ zs"
    using merged_rows_prefix[of fnew ex mt ml] r by (auto simp: prefix_def)
  ultimately show ?thesis by (metis distinct_append map_append)
qed

theorem merged_urls_distinct_witness:
  "merge_table ascii_lower ex_block [ex_row_bar, ex_row_qux] 0 0 [] False
     = Inr ([ex_row_bar, ex_row_qux, ex_row_foo], 2)
   \<and> distinct (map link_url [ex_row_bar, ex_row_qux])
   \<and> list_all (\<lambda>r. link_url r \<noteq> [] \<and> sanitize_cell (r ! 3) = r ! 3) [ex_row_bar, ex_row_qux]
   \<and> distinct (map link_url (existing_rows ascii_lower ex_block [] False))
   \<and> distinct (map link_url [ex_row_bar, ex_row_qux, ex_row_foo])"
proof -
  have 1: "distinct (map link_url [ex_row_bar, ex_row_qux])"
    by (simp add: ex_link_urls ascii_def)
  have 2: "\<forall>r \<in> set [ex_row_bar, ex_row_qux]. link_url r \<noteq> [] \<and> sanitize_cell (r ! 3) = r ! 3"
    by (simp add: ex_link_urls) (simp add: row_ev sanitize_cell_def str_ev)
  have 3: "distinct (map link_url (existing_rows ascii_lower ex_block [] False))"
    by (simp add: existing_rows_def ex_parse_block)
  show ?thesis
    using 1 2 3 ex_merge_two_new merged_urls_distinct [OF ex_merge_two_new 1 2 3]
    by (simp add: list_all_iff)
qed

theorem merged_urls_distinct_counterexample:
  "update_readme ascii_lower [0::nat \<mapsto> ex_doc] 0 [ex_row_bar, ex_row_bar2] 0 0 [] False
     = (Inr 2, [0 \<mapsto> ex_doc_of [ex_row_bar, ex_row_bar2, ex_row_foo]])
   \<and> extract_url (ex_row_bar ! 3) = extract_url (ex_row_bar2 ! 3)
   \<and> ex_row_bar \<noteq> ex_row_bar2"
  using ex_update_readme [OF ex_merge_same_url ex_docs_plain(4)] ex_link_urls(2,3)
  by (simp add: link_url_def) (simp add: row_ev ascii_def)

text \<open>
  C3. With no new rows \<open>update_readme\<close> reports 0 added rows whenever the markers are
  there and in order, but the table is not always the existing one normalized: pruning
  and the cut to \<open>max_total\<close> still apply. As amended: with the markers in order and no new
  rows the count is 0, and when no pruning applies (\<open>prune_existing\<close> off or no exclusion
  keywords) and \<open>max_total\<close> is 0 or at least the number of existing rows, the document
  written holds the existing rows, each normalized once.
\<close>

theorem update_readme_no_new_rows:
  assumes "read_text fs p = Inr content"
    and "sublist AUTO_START content" and "sublist AUTO_END content"
    and "py_find content AUTO_START \<le> py_find content AUTO_END"
  shows "fst (update_readme lower fs p [] mt ml ek pe) = Inr 0
     \<and> ((\<not> pe \<or> ek = [])
          \<and> (mt = 0 \<or> int (length (parse_markdown_rows
                 (block_of content (py_find content AUTO_START) (py_find content AUTO_END)))) \<le> mt)
        \<longrightarrow> snd (update_readme lower fs p [] mt ml ek pe)
             = fs(p \<mapsto> splice content (py_find content AUTO_START) (py_find content AUTO_END)
                    (map (normalize_row ml) (parse_markdown_rows
                       (block_of content (py_find content AUTO_START) (py_find content AUTO_END))))))"
proof -
  define b where "b = block_of content (py_find content AUTO_START) (py_find content AUTO_END)"
  define rows where "rows = merged_rows [] (existing_rows lower b ek pe) mt ml"
  have t: "merge_table lower (block_of content (py_find content AUTO_START) (py_find content AUTO_END))
      [] mt ml ek pe = Inr (rows, 0)"
    using merge_table_total[of "[]" lower b mt ml ek pe] by (simp add: rows_def b_def)
  have enc: "\<not> list_ex is_surrogate
      (splice content (py_find content AUTO_START) (py_find content AUTO_END) rows)"
    by (rule splice_plain(1)[OF assms(1) t]) simp
  have u: "update_readme lower fs p [] mt ml ek pe
      = (Inr 0, fs(p \<mapsto> splice content (py_find content AUTO_START) (py_find content AUTO_END) rows))"
    using update_readme_run[OF assms t] enc by simp
  have "rows = map (normalize_row ml) (parse_markdown_rows b)"
    if "\<not> pe \<or> ek = []" and "mt = 0 \<or> int (length (parse_markdown_rows b)) \<le> mt"
  proof -
    have "existing_rows lower b ek pe = parse_markdown_rows b"
      using that(1) by (auto simp: existing_rows_def)
    then show ?thesis using that(2) by (simp add: rows_def merged_rows_untruncated)
  qed
  then show ?thesis using u by (simp add: b_def)
qed

theorem update_readme_no_new_rows_witness:
  "read_text [0::nat \<mapsto> ex_doc] 0 = Inr ex_doc
   \<and> sublist AUTO_START ex_doc \<and> sublist AUTO_END ex_doc
   \<and> py_find ex_doc AUTO_START \<le> py_find ex_doc AUTO_END
   \<and> update_readme ascii_lower [0::nat \<mapsto> ex_doc] 0 [] 0 0 [] False = (Inr 0, [0 \<mapsto> ex_doc])"
proof -
  have 1: "sublist AUTO_START ex_doc" "sublist AUTO_END ex_doc"
    using ex_find_markers py_find_minus_one[of ex_doc AUTO_START]
      py_find_minus_one[of ex_doc AUTO_END] by simp_all
  have 2: "py_find ex_doc AUTO_START \<le> py_find ex_doc AUTO_END"
    using ex_find_markers by simp
  have 4: "normalize_row 0 ex_row_foo = ex_row_foo"
    by (simp add: normalize_row_def truncate_text_def sanitize_cell_def ex_row_foo_def str_ev)
  from update_readme_no_new_rows [where fs = "[0::nat \<mapsto> ex_doc]" and p = 0
      and content = ex_doc and lower = ascii_lower and mt = 0 and ml = 0 and ek = "[]"
      and pe = False, OF ex_read_text 1 2]
  have "fst (update_readme ascii_lower [0::nat \<mapsto> ex_doc] 0 [] 0 0 [] False) = Inr 0"
    and "snd (update_readme ascii_lower [0::nat \<mapsto> ex_doc] 0 [] 0 0 [] False) = [0 \<mapsto> ex_doc]"
    by (simp_all add: ex_find_markers ex_doc_block ex_parse_block 4 ex_splice ex_doc_def[symmetric])
  then have "update_readme ascii_lower [0::nat \<mapsto> ex_doc] 0 [] 0 0 [] False = (Inr 0, [0 \<mapsto> ex_doc])"
    by (simp add: prod_eq_iff)
  then show ?thesis using 1 2 ex_read_text by simp
qed

theorem update_readme_no_new_rows_counterexample:
  "update_readme ascii_lower [0::nat \<mapsto> ex_doc_of [ex_row_foo, ex_row_bar]] 0 [] 1 0 [] False
     = (Inr 0, [0 \<mapsto> ex_doc_of [ex_row_foo]])
   \<and> parse_markdown_rows (ex_block_of [ex_row_foo, ex_row_bar]) = [ex_row_foo, ex_row_bar]
   \<and> map (normalize_row 0) [ex_row_foo, ex_row_bar] = [ex_row_foo, ex_row_bar]
   \<and> ex_doc_of [ex_row_foo] \<noteq> ex_doc_of [ex_row_foo, ex_row_bar]"
proof -
  have 1: "map (normalize_row 0) [ex_row_foo, ex_row_bar] = [ex_row_foo, ex_row_bar]"
    by (simp add: normalize_row_def truncate_text_def sanitize_cell_def row_ev str_ev)
  have 2: "ex_doc_of [ex_row_foo] \<noteq> ex_doc_of [ex_row_foo, ex_row_bar]"
    by (simp add: row_ev doc_ev)
  show ?thesis
    using ex_update_readme_foo_bar [OF ex_merge_no_new_cut ex_docs_plain(1)] ex_parse_block_foo_bar 1 2
    by simp
qed

text \<open>
  C4. Running \<open>update_readme\<close> twice with the same new rows need not give the table of one
  run: when \<open>max_total\<close> cut the first result, the second run adds new rows that were cut
  and cuts others. As amended: a new row whose non-empty URL is the URL of a row kept from
  the existing table is never added (the existing row wins), whatever the other arguments;
  and when the markers are in order, the first merge was not cut by \<open>max_total\<close>, no
  pruning applies, the description limit is 0 or at least 3, every new row has a non-empty
  URL in a link cell that sanitization leaves unchanged, no lone surrogate, no line boundary
  other than a newline and not the header cells, and the table written does not contain the
  end marker, then the first run writes the merged table and a second run of
  \<open>update_readme\<close> with the same new rows on the written file adds 0 rows and leaves the
  file as the first run wrote it.
\<close>

theorem update_readme_twice:
  "(merge_table lower block new_rows mt ml ek pe = Inr (rows0, n0)
      \<longrightarrow> (\<exists>U fnew. existing_urls (existing_rows lower block ek pe) = Inr U
             \<and> filtered_new U new_rows = Inr fnew \<and> n0 = length fnew
             \<and> rows0 = merged_rows fnew (existing_rows lower block ek pe) mt ml
             \<and> (\<forall>r \<in> set new_rows.
                    link_url r \<noteq> [] \<and> link_url r \<in> link_url ` set (existing_rows lower block ek pe)
                    \<longrightarrow> r \<notin> set fnew)))
   \<and> (read_text fs p = Inr content
        \<and> sublist AUTO_START content \<and> sublist AUTO_END content
        \<and> py_find content AUTO_START \<le> py_find content AUTO_END
        \<and> merge_table lower (block_of content (py_find content AUTO_START) (py_find content AUTO_END))
              new_rows mt ml ek pe = Inr (rows, n)
        \<and> (mt = 0 \<or> int (n + length (parse_markdown_rows
              (block_of content (py_find content AUTO_START) (py_find content AUTO_END)))) \<le> mt)
        \<and> (\<not> pe \<or> ek = [])
        \<and> (ml \<le> 0 \<or> 3 \<le> ml)
        \<and> (\<forall>r \<in> set new_rows. printable_new_row r)
        \<and> \<not> sublist AUTO_END (build_table_text rows)
      \<longrightarrow> update_readme lower fs p new_rows mt ml ek pe
            = (Inr (int n),
               fs(p \<mapsto> splice content (py_find content AUTO_START) (py_find content AUTO_END) rows))
          \<and> update_readme lower
              (fs(p \<mapsto> splice content (py_find content AUTO_START) (py_find content AUTO_END) rows))
              p new_rows mt ml ek pe
            = (Inr 0,
               fs(p \<mapsto> splice content (py_find content AUTO_START) (py_find content AUTO_END) rows)))"
proof (intro conjI impI)
  assume m: "merge_table lower block new_rows mt ml ek pe = Inr (rows0, n0)"
  define ex where "ex = existing_rows lower block ek pe"
  from merge_table_rows[OF m] obtain fnew where
    len: "\<forall>r \<in> set new_rows. 3 < length r"
    and f: "fnew = filter (\<lambda>r. \<not> (link_url r \<noteq> [] \<and> link_url r \<in> link_url ` set ex)) new_rows"
    and r: "rows0 = merged_rows fnew ex mt ml" and n: "n0 = length fnew"
    unfolding ex_def by blast
  have g: "\<forall>r \<in> set ex. good_row r" using existing_rows_good by (auto simp: ex_def)
  have e: "existing_urls ex = Inr (set (filter (\<lambda>u. u \<noteq> []) (map link_url ex)))"
    by (rule existing_urls_good[OF g])
  have f1: "filtered_new (set (filter (\<lambda>u. u \<noteq> []) (map link_url ex))) new_rows = Inr fnew"
    by (simp only: filtered_new_filter[OF len] url_filter_eq f)
  have f2: "\<forall>r \<in> set new_rows. link_url r \<noteq> [] \<and> link_url r \<in> link_url ` set ex \<longrightarrow> r \<notin> set fnew"
    by (auto simp: f)
  show "\<exists>U fnew. existing_urls (existing_rows lower block ek pe) = Inr U
      \<and> filtered_new U new_rows = Inr fnew \<and> n0 = length fnew
      \<and> rows0 = merged_rows fnew (existing_rows lower block ek pe) mt ml
      \<and> (\<forall>r \<in> set new_rows.
             link_url r \<noteq> [] \<and> link_url r \<in> link_url ` set (existing_rows lower block ek pe)
             \<longrightarrow> r \<notin> set fnew)"
    using e f1 n r f2 unfolding ex_def by blast
next
  assume a: "read_text fs p = Inr content
        \<and> sublist AUTO_START content \<and> sublist AUTO_END content
        \<and> py_find content AUTO_START \<le> py_find content AUTO_END
        \<and> merge_table lower (block_of content (py_find content AUTO_START) (py_find content AUTO_END))
              new_rows mt ml ek pe = Inr (rows, n)
        \<and> (mt = 0 \<or> int (n + length (parse_markdown_rows
              (block_of content (py_find content AUTO_START) (py_find content AUTO_END)))) \<le> mt)
        \<and> (\<not> pe \<or> ek = [])
        \<and> (ml \<le> 0 \<or> 3 \<le> ml)
        \<and> (\<forall>r \<in> set new_rows. printable_new_row r)
        \<and> \<not> sublist AUTO_END (build_table_text rows)"
  then have rd: "read_text fs p = Inr content"
    and st: "sublist AUTO_START content" and en: "sublist AUTO_END content"
    and ord: "py_find content AUTO_START \<le> py_find content AUTO_END"
    and m: "merge_table lower (block_of content (py_find content AUTO_START) (py_find content AUTO_END))
          new_rows mt ml ek pe = Inr (rows, n)"
    and nocut: "mt = 0 \<or> int (n + length (parse_markdown_rows
          (block_of content (py_find content AUTO_START) (py_find content AUTO_END)))) \<le> mt"
    and noprune: "\<not> pe \<or> ek = []"
    and mlok: "ml \<le> 0 \<or> 3 \<le> ml"
    and pr: "\<forall>r \<in> set new_rows. printable_new_row r"
    and noend: "\<not> sublist AUTO_END (build_table_text rows)"
    by blast+
  show "update_readme lower fs p new_rows mt ml ek pe
      = (Inr (int n),
         fs(p \<mapsto> splice content (py_find content AUTO_START) (py_find content AUTO_END) rows))"
    by (rule update_readme_again(1)[OF rd st en ord m nocut noprune mlok pr noend])
  show "update_readme lower
          (fs(p \<mapsto> splice content (py_find content AUTO_START) (py_find content AUTO_END) rows))
          p new_rows mt ml ek pe
      = (Inr 0,
         fs(p \<mapsto> splice content (py_find content AUTO_START) (py_find content AUTO_END) rows))"
    by (rule update_readme_again(2)[OF rd st en ord m nocut noprune mlok pr noend])
qed

theorem update_readme_twice_witness:
  "merge_table ascii_lower ex_block [ex_row_foo, ex_row_bar] 0 0 [] False
     = Inr ([ex_row_bar, ex_row_foo], 1)
   \<and> existing_rows ascii_lower ex_block [] False = [ex_row_foo]
   \<and> link_url ex_row_foo \<noteq> []
   \<and> (\<exists>U fnew. existing_urls [ex_row_foo] = Inr U
          \<and> filtered_new U [ex_row_foo, ex_row_bar] = Inr fnew \<and> ex_row_foo \<notin> set fnew)
   \<and> read_text [0::nat \<mapsto> ex_doc] 0 = Inr ex_doc
   \<and> sublist AUTO_START ex_doc \<and> sublist AUTO_END ex_doc
   \<and> py_find ex_doc AUTO_START \<le> py_find ex_doc AUTO_END
   \<and> merge_table ascii_lower (block_of ex_doc (py_find ex_doc AUTO_START) (py_find ex_doc AUTO_END))
         [ex_row_bar, ex_row_qux] 0 0 [] False = Inr ([ex_row_bar, ex_row_qux, ex_row_foo], 2)
   \<and> list_all printable_new_row [ex_row_bar, ex_row_qux]
   \<and> \<not> sublist AUTO_END (build_table_text [ex_row_bar, ex_row_qux, ex_row_foo])
   \<and> update_readme ascii_lower [0::nat \<mapsto> ex_doc] 0 [ex_row_bar, ex_row_qux] 0 0 [] False
        = (Inr 2, [0 \<mapsto> ex_doc_of [ex_row_bar, ex_row_qux, ex_row_foo]])
   \<and> update_readme ascii_lower [0::nat \<mapsto> ex_doc_of [ex_row_bar, ex_row_qux, ex_row_foo]] 0
          [ex_row_bar, ex_row_qux] 0 0 [] False
        = (Inr 0, [0 \<mapsto> ex_doc_of [ex_row_bar, ex_row_qux, ex_row_foo]])"
proof -
  have 1: "sublist AUTO_START ex_doc" "sublist AUTO_END ex_doc"
    using ex_find_markers py_find_minus_one[of ex_doc AUTO_START]
      py_find_minus_one[of ex_doc AUTO_END] by simp_all
  have 2: "py_find ex_doc AUTO_START \<le> py_find ex_doc AUTO_END"
    using ex_find_markers by simp
  have 3: "merge_table ascii_lower (block_of ex_doc (py_find ex_doc AUTO_START) (py_find ex_doc AUTO_END))
      [ex_row_bar, ex_row_qux] 0 0 [] False = Inr ([ex_row_bar, ex_row_qux, ex_row_foo], 2)"
    by (simp add: ex_find_markers ex_doc_block ex_merge_two_new)
  have 4: "existing_rows ascii_lower ex_block [] False = [ex_row_foo]"
    by (simp add: existing_rows_def ex_parse_block)
  have 5: "link_url ex_row_foo \<noteq> []" by (simp add: ex_link_urls ascii_def)
  have 6: "splice ex_doc (py_find ex_doc AUTO_START) (py_find ex_doc AUTO_END)
      [ex_row_bar, ex_row_qux, ex_row_foo] = ex_doc_of [ex_row_bar, ex_row_qux, ex_row_foo]"
    by (simp add: ex_find_markers ex_splice)
  have 7: "[0::nat \<mapsto> ex_doc](0 \<mapsto> ex_doc_of [ex_row_bar, ex_row_qux, ex_row_foo])
      = [0 \<mapsto> ex_doc_of [ex_row_bar, ex_row_qux, ex_row_foo]]" by simp
  have prem: "read_text [0::nat \<mapsto> ex_doc] 0 = Inr ex_doc
        \<and> sublist AUTO_START ex_doc \<and> sublist AUTO_END ex_doc
        \<and> py_find ex_doc AUTO_START \<le> py_find ex_doc AUTO_END
        \<and> merge_table ascii_lower (block_of ex_doc (py_find ex_doc AUTO_START) (py_find ex_doc AUTO_END))
              [ex_row_bar, ex_row_qux] 0 0 [] False = Inr ([ex_row_bar, ex_row_qux, ex_row_foo], 2)
        \<and> ((0::int) = 0 \<or> int (2 + length (parse_markdown_rows
              (block_of ex_doc (py_find ex_doc AUTO_START) (py_find ex_doc AUTO_END)))) \<le> 0)
        \<and> (\<not> False \<or> ([]::ustr list) = [])
        \<and> ((0::int) \<le> 0 \<or> (3::int) \<le> 0)
        \<and> (\<forall>r \<in> set [ex_row_bar, ex_row_qux]. printable_new_row r)
        \<and> \<not> sublist AUTO_END (build_table_text [ex_row_bar, ex_row_qux, ex_row_foo])"
    using ex_read_text 1 2 3 ex_rows_printable_new ex_table_no_end by simp
  have ab: "update_readme ascii_lower [0::nat \<mapsto> ex_doc] 0 [ex_row_bar, ex_row_qux] 0 0 [] False
        = (Inr 2, [0 \<mapsto> ex_doc_of [ex_row_bar, ex_row_qux, ex_row_foo]])
      \<and> update_readme ascii_lower [0::nat \<mapsto> ex_doc_of [ex_row_bar, ex_row_qux, ex_row_foo]] 0
          [ex_row_bar, ex_row_qux] 0 0 [] False
        = (Inr 0, [0 \<mapsto> ex_doc_of [ex_row_bar, ex_row_qux, ex_row_foo]])"
    using update_readme_twice [THEN conjunct2, THEN mp, OF prem] by (simp add: 6 7)
  from update_readme_twice [THEN conjunct1, THEN mp, OF ex_merge_collide]
  obtain U fnew where u: "existing_urls (existing_rows ascii_lower ex_block [] False) = Inr U"
    and f: "filtered_new U [ex_row_foo, ex_row_bar] = Inr fnew"
    and k: "\<forall>r \<in> set [ex_row_foo, ex_row_bar].
         link_url r \<noteq> [] \<and> link_url r \<in> link_url ` set (existing_rows ascii_lower ex_block [] False)
         \<longrightarrow> r \<notin> set fnew"
    by blast
  have "ex_row_foo \<notin> set fnew" using k 5 by (simp add: 4)
  then have c: "\<exists>U fnew. existing_urls [ex_row_foo] = Inr U
          \<and> filtered_new U [ex_row_foo, ex_row_bar] = Inr fnew \<and> ex_row_foo \<notin> set fnew"
    using u f unfolding 4 by blast
  show ?thesis
    using ab c ex_merge_collide 4 5 prem by (simp add: list_all_iff)
qed

theorem update_readme_twice_counterexample:
  "update_readme ascii_lower [0::nat \<mapsto> ex_doc] 0 [ex_row_bar, ex_row_qux] 1 0 [] False
     = (Inr 2, [0 \<mapsto> ex_doc_of [ex_row_bar]])
   \<and> update_readme ascii_lower [0::nat \<mapsto> ex_doc_of [ex_row_bar]] 0 [ex_row_bar, ex_row_qux] 1 0 [] False
     = (Inr 1, [0 \<mapsto> ex_doc_of [ex_row_qux]])
   \<and> ex_doc_of [ex_row_qux] \<noteq> ex_doc_of [ex_row_bar]"
proof -
  have "ex_doc_of [ex_row_qux] \<noteq> ex_doc_of [ex_row_bar]"
    by (simp add: row_ev doc_ev)
  then show ?thesis
    using ex_update_readme [OF ex_merge_two_new_cut ex_docs_plain(2)]
      ex_update_readme_bar [OF ex_merge_second_run ex_docs_plain(3)]
    by simp
qed

text \<open>
  C10. A new row whose link cell yields no URL always passes the filter of new rows and is
  counted as added, also when the same row is in the table already; but it is not always in
  the table afterwards, since the cut to \<open>max_total\<close> may remove it. As amended: such a
  row (of at least four cells, like every new row) is always kept by the filter and counted
  in the number of added rows, and when the merged rows are not cut (\<open>max_total\<close> is 0 or
  at least their number) its normalized form is in the table, at least twice when the
  existing table already contains the row.
\<close>

theorem empty_url_row_kept:
  assumes "\<forall>x \<in> set new_rows. 3 < length x" and "r \<in> set new_rows"
    and "extract_url (r ! 3) = []"
  shows "\<exists>rows U fnew.
       existing_urls (existing_rows lower block ek pe) = Inr U
       \<and> filtered_new U new_rows = Inr fnew \<and> r \<in> set fnew
       \<and> merge_table lower block new_rows mt ml ek pe = Inr (rows, length fnew)
       \<and> (mt = 0 \<or> int (length fnew + length (existing_rows lower block ek pe)) \<le> mt
            \<longrightarrow> normalize_row ml r \<in> set rows
                \<and> (r \<in> set (existing_rows lower block ek pe)
                      \<longrightarrow> 2 \<le> count_list rows (normalize_row ml r)))"
proof -
  define ex where "ex = existing_rows lower block ek pe"
  define U where "U = set (filter (\<lambda>u. u \<noteq> []) (map link_url ex))"
  define fnew where "fnew = filter (\<lambda>r. \<not> (link_url r \<noteq> [] \<and> link_url r \<in> U)) new_rows"
  define rows where "rows = merged_rows fnew ex mt ml"
  have g: "\<forall>r \<in> set ex. good_row r" using existing_rows_good by (auto simp: ex_def)
  have 1: "existing_urls ex = Inr U" by (simp add: U_def existing_urls_good[OF g])
  have 2: "filtered_new U new_rows = Inr fnew"
    by (simp add: fnew_def filtered_new_filter[OF assms(1)])
  have 3: "r \<in> set fnew" using assms(2,3) by (simp add: fnew_def link_url_def)
  have 4: "merge_table lower block new_rows mt ml ek pe = Inr (rows, length fnew)"
    by (simp add: merge_table_def Let_def 1[unfolded ex_def] 2 rows_def ex_def)
  have 5: "normalize_row ml r \<in> set rows
         \<and> (r \<in> set ex \<longrightarrow> 2 \<le> count_list rows (normalize_row ml r))"
    if "mt = 0 \<or> int (length fnew + length ex) \<le> mt"
  proof -
    have r: "rows = map (normalize_row ml) (fnew @ ex)"
      using that by (simp add: rows_def merged_rows_untruncated)
    have a: "normalize_row ml r \<in> set rows" using 3 by (simp add: r)
    have b: "2 \<le> count_list rows (normalize_row ml r)" if "r \<in> set ex"
    proof -
      have "1 \<le> count_list fnew r" using 3 by (rule count_list_pos)
      moreover have "1 \<le> count_list ex r" using that by (rule count_list_pos)
      ultimately have "2 \<le> count_list (fnew @ ex) r" by simp
      also have "\<dots> \<le> count_list rows (normalize_row ml r)"
        unfolding r by (rule count_list_map_ge)
      finally show ?thesis .
    qed
    show ?thesis using a b by blast
  qed
  show ?thesis using 1 2 3 4 5 unfolding ex_def by blast
qed

theorem empty_url_row_kept_witness:
  "list_all (\<lambda>x. 3 < length x) [ex_row_nourl]
   \<and> extract_url (ex_row_nourl ! 3) = []
   \<and> existing_rows ascii_lower (ex_block_of [ex_row_nourl]) [] False = [ex_row_nourl]
   \<and> merge_table ascii_lower (ex_block_of [ex_row_nourl]) [ex_row_nourl] 0 0 [] False
        = Inr ([ex_row_nourl, ex_row_nourl], 1)
   \<and> 2 \<le> count_list [ex_row_nourl, ex_row_nourl] (normalize_row 0 ex_row_nourl)"
proof -
  have 1: "\<forall>x \<in> set [ex_row_nourl]. 3 < length x" by (simp add: ex_row_nourl_def)
  have 2: "ex_row_nourl \<in> set [ex_row_nourl]" by simp
  have 3: "extract_url (ex_row_nourl ! 3) = []" using ex_link_urls(5) by (simp add: link_url_def)
  have 4: "existing_rows ascii_lower (ex_block_of [ex_row_nourl]) [] False = [ex_row_nourl]"
    by (simp add: existing_rows_def ex_parse_block_nourl)
  from empty_url_row_kept [OF 1 2 3, of ascii_lower "ex_block_of [ex_row_nourl]" "[]" False 0 0]
  obtain rows n where
    a: "merge_table ascii_lower (ex_block_of [ex_row_nourl]) [ex_row_nourl] 0 0 [] False = Inr (rows, n)"
    and b: "2 \<le> count_list rows (normalize_row 0 ex_row_nourl)"
    unfolding 4 by auto
  from a have "rows = [ex_row_nourl, ex_row_nourl]" by (simp add: ex_merge_nourl_again)
  then show ?thesis using 1 3 4 b ex_merge_nourl_again by (simp add: list_all_iff)
qed

theorem empty_url_row_kept_counterexample:
  "extract_url (ex_row_nourl ! 3) = []
   \<and> update_readme ascii_lower [0::nat \<mapsto> ex_doc] 0 [ex_row_bar, ex_row_nourl] 1 0 [] False
        = (Inr 2, [0 \<mapsto> ex_doc_of [ex_row_bar]])
   \<and> parse_markdown_rows (ex_block_of [ex_row_bar]) = [ex_row_bar]
   \<and> ex_row_nourl \<noteq> ex_row_bar \<and> normalize_row 0 ex_row_nourl \<noteq> ex_row_bar"
proof -
  have 1: "extract_url (ex_row_nourl ! 3) = []" using ex_link_urls(5) by (simp add: link_url_def)
  have 2: "ex_row_nourl \<noteq> ex_row_bar \<and> normalize_row 0 ex_row_nourl \<noteq> ex_row_bar"
    by (simp add: normalize_row_def truncate_text_def sanitize_cell_def row_ev str_ev)
  show ?thesis
    using 1 2 ex_update_readme [OF ex_merge_nourl_cut ex_docs_plain(2)] ex_parse_block_bar by simp
qed

end
